theory Spec2Isabelle
  imports
    Main
    "HOL-Library.Monad_Syntax"
    "HOL-Library.Multiset"
    "HOL-Library.Product_Lexorder"
    "HOL-Library.Signed_Division"
begin

unbundle bit_operations_syntax

section \<open>The segment tree of solution.cpp\<close>

text \<open>
  The C++ \<open>int\<close>s are modelled as unbounded integers. Every theorem below keeps the
  stored sums inside \<open>[0, kMod)\<close>, where \<open>tmp + sum < 2 * kMod < 2^31\<close>, so no signed
  overflow is reachable there. \<open>%\<close> is the truncating remainder \<open>smod\<close>, \<open>>> 1\<close> is
  \<open>drop_bit 1\<close>, \<open><< 1\<close> is \<open>push_bit 1\<close>.
\<close>

definition kMod :: int where
  "kMod = 1000000007"

text \<open>\<open>struct Node {int l, r; int tag; int sum;}\<close>; the fields carry the prefix \<open>n_\<close>.\<close>

record Node =
  n_l :: int
  n_r :: int
  n_tag :: int
  n_sum :: int

text \<open>
  \<open>Node tree[kMaxN*4]\<close>, a static (zero-initialised) array, as a store from indices to
  nodes; the bound of the array is not modelled.
\<close>

type_synonym tree = "nat \<Rightarrow> Node"

definition tree0 :: tree where
  "tree0 = (\<lambda>_. \<lparr>n_l = 0, n_r = 0, n_tag = 0, n_sum = 0\<rparr>)"

definition lson :: "nat \<Rightarrow> nat" where
  "lson x = push_bit 1 x"

definition rson :: "nat \<Rightarrow> nat" where
  "rson x = push_bit 1 x OR 1"

partial_function (option) buildTree :: "tree \<Rightarrow> nat \<Rightarrow> int \<Rightarrow> int \<Rightarrow> tree option" where
  "buildTree t x l r =
     (let t1 = t(x := (t x)\<lparr>n_l := l, n_r := r\<rparr>) in
      if l = r then Some t1
      else
        let mid = drop_bit 1 (l + r) in
        do {
          t2 \<leftarrow> buildTree t1 (lson x) l mid;
          buildTree t2 (rson x) (mid + 1) r
        })"

definition pushUp :: "tree \<Rightarrow> nat \<Rightarrow> tree" where
  "pushUp t x =
     t(x := (t x)\<lparr>n_sum := (n_sum (t (lson x)) + n_sum (t (rson x))) smod kMod\<rparr>)"

definition pushDown :: "tree \<Rightarrow> nat \<Rightarrow> tree" where
  "pushDown t x =
     (if n_tag (t x) \<noteq> 0 then
        let t1 = t(rson x := (t (rson x))\<lparr>n_tag := 1\<rparr>);
            t2 = t1(lson x := (t1 (lson x))\<lparr>n_tag := 1\<rparr>);
            t3 = t2(rson x := (t2 (rson x))\<lparr>n_sum := 0\<rparr>);
            t4 = t3(lson x := (t3 (lson x))\<lparr>n_sum := 0\<rparr>)
        in t4(x := (t4 x)\<lparr>n_tag := 0\<rparr>)
      else t)"

partial_function (option) updatePoint :: "tree \<Rightarrow> nat \<Rightarrow> int \<Rightarrow> int \<Rightarrow> tree option" where
  "updatePoint t x pos val =
     (if n_l (t x) = n_r (t x) then Some (t(x := (t x)\<lparr>n_sum := val\<rparr>))
      else
        let t1 = pushDown t x;
            mid = drop_bit 1 (n_l (t1 x) + n_r (t1 x))
        in do {
          t2 \<leftarrow> (if pos \<le> mid then updatePoint t1 (lson x) pos val else Some t1);
          t3 \<leftarrow> (if mid < pos then updatePoint t2 (rson x) pos val else Some t2);
          Some (pushUp t3 x)
        })"

partial_function (option) zeroRange :: "tree \<Rightarrow> nat \<Rightarrow> int \<Rightarrow> int \<Rightarrow> tree option" where
  "zeroRange t x l r =
     (if l \<le> n_l (t x) \<and> n_r (t x) \<le> r then Some (t(x := (t x)\<lparr>n_tag := 1, n_sum := 0\<rparr>))
      else
        let t1 = pushDown t x;
            mid = drop_bit 1 (n_l (t1 x) + n_r (t1 x))
        in do {
          t2 \<leftarrow> (if l \<le> mid then zeroRange t1 (lson x) l r else Some t1);
          t3 \<leftarrow> (if mid < r then zeroRange t2 (rson x) l r else Some t2);
          Some (pushUp t3 x)
        })"

partial_function (option) queryRange :: "tree \<Rightarrow> nat \<Rightarrow> int \<Rightarrow> int \<Rightarrow> (tree \<times> int) option" where
  "queryRange t x l r =
     (if l \<le> n_l (t x) \<and> n_r (t x) \<le> r then Some (t, n_sum (t x))
      else
        let t1 = pushDown t x;
            mid = drop_bit 1 (n_l (t1 x) + n_r (t1 x))
        in do {
          (t2, tmp1) \<leftarrow>
            (if l \<le> mid then do {
               (t', q) \<leftarrow> queryRange t1 (lson x) l r;
               Some (t', (0 + q) smod kMod)
             } else Some (t1, 0));
          (t3, tmp2) \<leftarrow>
            (if mid < r then do {
               (t', q) \<leftarrow> queryRange t2 (rson x) l r;
               Some (t', (tmp1 + q) smod kMod)
             } else Some (t2, tmp1));
          Some (t3, tmp2)
        })"

declare buildTree.simps [code]
declare updatePoint.simps [code]
declare zeroRange.simps [code]
declare queryRange.simps [code]

section \<open>The driver (\<open>main\<close>)\<close>

text \<open>A rectangle as it is read: \<open>(x1, y1, x2, y2)\<close>, rows \<open>x1..x2\<close>, columns \<open>y1..y2\<close>.\<close>

type_synonym rect = "int \<times> int \<times> int \<times> int"

type_synonym segs = "(int \<times> int) set"

type_synonym buckets = "int \<Rightarrow> (int \<times> int) list"

text \<open>The reading loop: \<open>push_back\<close> on \<open>addRanges[x1]\<close> and \<open>delRanges[x2+1]\<close>.\<close>

fun readRects :: "rect list \<Rightarrow> buckets \<times> buckets \<Rightarrow> buckets \<times> buckets" where
  "readRects [] ad = ad"
| "readRects ((x1, y1, x2, y2) # rs) (addRanges, delRanges) =
     readRects rs
       (addRanges(x1 := addRanges x1 @ [(y1, y2)]),
        delRanges(x2 + 1 := delRanges (x2 + 1) @ [(y1, y2)]))"

text \<open>
  \<open>it = activeSegs.lower_bound(k); it--; *it\<close>: the greatest member below \<open>k\<close> in the
  order of \<open>std::pair\<close>. Decrementing \<open>begin()\<close> is undefined: \<open>None\<close>.
\<close>

definition lowerBoundPrev :: "segs \<Rightarrow> int \<times> int \<Rightarrow> (int \<times> int) option" where
  "lowerBoundPrev S k =
     (if {p \<in> S. p < k} = {} then None else Some (Max {p \<in> S. p < k}))"

text \<open>\<open>it = activeSegs.end(); it--; *it\<close>; undefined on the empty set.\<close>

definition lastSeg :: "segs \<Rightarrow> (int \<times> int) option" where
  "lastSeg S = (if S = {} then None else Some (Max S))"

text \<open>The body of the first inner loop (lines 98 to 104) for one \<open>segRange\<close>.\<close>

definition boundary :: "int \<Rightarrow> segs \<Rightarrow> tree \<Rightarrow> int \<times> int \<Rightarrow> tree option" where
  "boundary mCols S t segRange =
     (let x = fst segRange; y = snd segRange in
      if y = mCols then Some t
      else do {
        pr \<leftarrow> lowerBoundPrev S (y + 2, 0);
        (t1, ans) \<leftarrow> (if snd pr \<le> y then queryRange t 1 (snd pr + 1) (y + 1) else Some (t, 0));
        updatePoint t1 1 (y + 1) ans
      })"

fun boundaries :: "int \<Rightarrow> segs \<Rightarrow> tree \<Rightarrow> (int \<times> int) list \<Rightarrow> tree option" where
  "boundaries mCols S t [] = Some t"
| "boundaries mCols S t (p # ps) =
     do { t1 \<leftarrow> boundary mCols S t p; boundaries mCols S t1 ps }"

text \<open>The second inner loop: \<open>activeSegs.erase(segRange)\<close> for each expiring interval.\<close>

fun eraseAll :: "segs \<Rightarrow> (int \<times> int) list \<Rightarrow> segs" where
  "eraseAll S [] = S"
| "eraseAll S (p # ps) = eraseAll (S - {p}) ps"

text \<open>The third inner loop: insert the interval, then \<open>zeroRange\<close> it.\<close>

fun activate :: "tree \<times> segs \<Rightarrow> (int \<times> int) list \<Rightarrow> (tree \<times> segs) option" where
  "activate (t, S) [] = Some (t, S)"
| "activate (t, S) (p # ps) =
     do { t1 \<leftarrow> zeroRange t 1 (fst p) (snd p); activate (t1, insert p S) ps }"

text \<open>
  One iteration of the loop over the rows. The source sorts \<open>addRanges[i]\<close> and reverses
  it in place; \<open>order\<close> stands for that step, so that other processing orders can be
  stated. The source's order is \<open>sortDesc\<close>.
\<close>

definition sortDesc :: "(int \<times> int) list \<Rightarrow> (int \<times> int) list" where
  "sortDesc xs = rev (sort xs)"

definition rowStepWith ::
  "((int \<times> int) list \<Rightarrow> (int \<times> int) list) \<Rightarrow> int \<Rightarrow> buckets \<Rightarrow> buckets \<Rightarrow>
     tree \<times> segs \<Rightarrow> int \<Rightarrow> (tree \<times> segs) option" where
  "rowStepWith order mCols addRanges delRanges st i =
     (let adds = order (addRanges i) in
      do {
        t1 \<leftarrow> boundaries mCols (snd st) (fst st) adds;
        activate (t1, eraseAll (snd st) (delRanges i)) adds
      })"

fun sweepWith ::
  "((int \<times> int) list \<Rightarrow> (int \<times> int) list) \<Rightarrow> int \<Rightarrow> buckets \<Rightarrow> buckets \<Rightarrow>
     tree \<times> segs \<Rightarrow> int list \<Rightarrow> (tree \<times> segs) option" where
  "sweepWith order mCols addRanges delRanges st [] = Some st"
| "sweepWith order mCols addRanges delRanges st (i # is) =
     do {
       st1 \<leftarrow> rowStepWith order mCols addRanges delRanges st i;
       sweepWith order mCols addRanges delRanges st1 is
     }"

text \<open>Lines 89 to 93: the sentinel, the intervals of row 1, the tree and its base case.\<close>

definition initState :: "int \<Rightarrow> buckets \<Rightarrow> (tree \<times> segs) option" where
  "initState mCols addRanges =
     (let S = fold insert (addRanges 1) {(0, 0)} in
      do {
        t1 \<leftarrow> buildTree tree0 1 1 mCols;
        t2 \<leftarrow> updatePoint t1 1 1 1;
        Some (t2, S)
      })"

text \<open>The state after the rows \<open>2..i\<close> have been processed.\<close>

definition stateAfterWith ::
  "((int \<times> int) list \<Rightarrow> (int \<times> int) list) \<Rightarrow> int \<Rightarrow> rect list \<Rightarrow> int \<Rightarrow>
     (tree \<times> segs) option" where
  "stateAfterWith order mCols rects i =
     (let (addRanges, delRanges) = readRects rects (\<lambda>_. [], \<lambda>_. []) in
      do {
        st \<leftarrow> initState mCols addRanges;
        sweepWith order mCols addRanges delRanges st [2..i]
      })"

text \<open>Lines 112 and 113: the answer that is printed.\<close>

definition finish :: "int \<Rightarrow> tree \<times> segs \<Rightarrow> int option" where
  "finish mCols st =
     do {
       last \<leftarrow> lastSeg (snd st);
       (t, res) \<leftarrow> queryRange (fst st) 1 (snd last + 1) mCols;
       Some res
     }"

definition solveWith ::
  "((int \<times> int) list \<Rightarrow> (int \<times> int) list) \<Rightarrow> int \<Rightarrow> int \<Rightarrow> rect list \<Rightarrow> int option" where
  "solveWith order nRows mCols rects =
     do { st \<leftarrow> stateAfterWith order mCols rects nRows; finish mCols st }"

definition stateAfter :: "int \<Rightarrow> rect list \<Rightarrow> int \<Rightarrow> (tree \<times> segs) option" where
  "stateAfter = stateAfterWith sortDesc"

definition solve :: "int \<Rightarrow> int \<Rightarrow> rect list \<Rightarrow> int option" where
  "solve = solveWith sortDesc"

section \<open>Representation invariant and abstraction of the tree\<close>

text \<open>
  The indices of the subtree below node \<open>x\<close>: \<open>x\<close>, its two sons \<open>2x\<close> and \<open>2x+1\<close>,
  and so on. \<open>segInv t x lo hi\<close> says that node \<open>x\<close> of the store \<open>t\<close> roots a well-built
  subtree over the columns \<open>lo..hi\<close> whose sums are consistent and are residues;
  \<open>valAt t x lo hi i\<close> is the value that this subtree holds for column \<open>i\<close>, pending
  zero tags taken into account. A tag on a leaf is ignored by both.
\<close>

definition sub :: "nat \<Rightarrow> nat set" where
  "sub x = {y. \<exists>k. y div 2 ^ k = x}"

function segInv :: "tree \<Rightarrow> nat \<Rightarrow> int \<Rightarrow> int \<Rightarrow> bool" where
  "segInv t x lo hi =
     (0 < x \<and> n_l (t x) = lo \<and> n_r (t x) = hi \<and>
      (if lo < hi then
         segInv t (lson x) lo ((lo + hi) div 2) \<and>
         segInv t (rson x) ((lo + hi) div 2 + 1) hi \<and>
         n_sum (t x) =
           (if n_tag (t x) \<noteq> 0 then 0
            else (n_sum (t (lson x)) + n_sum (t (rson x))) mod kMod)
       else lo = hi \<and> 0 \<le> n_sum (t x) \<and> n_sum (t x) < kMod))"
  by pat_completeness auto
termination
  by (relation "measure (\<lambda>(t, x, lo, hi). nat (hi - lo))") auto

function valAt :: "tree \<Rightarrow> nat \<Rightarrow> int \<Rightarrow> int \<Rightarrow> int \<Rightarrow> int" where
  "valAt t x lo hi i =
     (if lo < hi then
        (if n_tag (t x) \<noteq> 0 then 0
         else if i \<le> (lo + hi) div 2 then valAt t (lson x) lo ((lo + hi) div 2) i
         else valAt t (rson x) ((lo + hi) div 2 + 1) hi i)
      else n_sum (t x))"
  by pat_completeness auto
termination
  by (relation "measure (\<lambda>(t, x, lo, hi, i). nat (hi - lo))") auto

declare segInv.simps [simp del]

declare valAt.simps [simp del]

definition treeInv :: "tree \<Rightarrow> int \<Rightarrow> bool" where
  "treeInv t m = segInv t 1 1 m"

definition arr :: "tree \<Rightarrow> int \<Rightarrow> int \<Rightarrow> int" where
  "arr t m i = (if 1 \<le> i \<and> i \<le> m then valAt t 1 1 m i else 0)"

section \<open>Sequences of calls on the tree, and the array they stand for\<close>

text \<open>
  The three operations as \<open>main\<close> calls them, always on the root \<open>1\<close>:
  \<open>seg.updatePoint(1, p, v)\<close>, \<open>seg.zeroRange(1, l, r)\<close>, \<open>seg.queryRange(1, l, r)\<close>.
  \<open>runOps\<close> runs a list of them and collects what the queries return;
  \<open>runFromBuild\<close> starts from \<open>seg.buildTree(1, 1, mCols)\<close> on the zero-initialised array.
\<close>


datatype treeOp = PointSet int int | ZeroAssign int int | RangeSum int int

fun applyOp :: "tree \<Rightarrow> treeOp \<Rightarrow> (tree \<times> int list) option" where
  "applyOp t (PointSet p v) = do { t' \<leftarrow> updatePoint t 1 p v; Some (t', []) }"
| "applyOp t (ZeroAssign l r) = do { t' \<leftarrow> zeroRange t 1 l r; Some (t', []) }"
| "applyOp t (RangeSum l r) = do { (t', s) \<leftarrow> queryRange t 1 l r; Some (t', [s]) }"

fun runOps :: "tree \<Rightarrow> treeOp list \<Rightarrow> (tree \<times> int list) option" where
  "runOps t [] = Some (t, [])"
| "runOps t (a # as) =
     do {
       (t1, out) \<leftarrow> applyOp t a;
       (t2, outs) \<leftarrow> runOps t1 as;
       Some (t2, out @ outs)
     }"

definition runFromBuild :: "int \<Rightarrow> treeOp list \<Rightarrow> (tree \<times> int list) option" where
  "runFromBuild mCols ops = do { t \<leftarrow> buildTree tree0 1 1 mCols; runOps t ops }"

text \<open>
  The abstract array of the specification: \<open>pointSet(p, v)\<close> is \<open>a[p] := v\<close>,
  \<open>zeroAssign(l, r)\<close> is \<open>a[i] := 0\<close> for all \<open>i\<close> in \<open>[l, r]\<close>, and \<open>rangeSum(l, r)\<close> is the
  sum of \<open>a[i]\<close> for \<open>i\<close> in \<open>[l, r]\<close> modulo \<open>kMod\<close>.
\<close>

fun arrayOp :: "(int \<Rightarrow> int) \<Rightarrow> treeOp \<Rightarrow> (int \<Rightarrow> int) \<times> int list" where
  "arrayOp a (PointSet p v) = (a(p := v), [])"
| "arrayOp a (ZeroAssign l r) = ((\<lambda>i. if l \<le> i \<and> i \<le> r then 0 else a i), [])"
| "arrayOp a (RangeSum l r) = (a, [(\<Sum>i = l..r. a i) mod kMod])"

fun arrayRun :: "(int \<Rightarrow> int) \<Rightarrow> treeOp list \<Rightarrow> (int \<Rightarrow> int) \<times> int list" where
  "arrayRun a [] = (a, [])"
| "arrayRun a (b # bs) =
     (let (a1, out) = arrayOp a b; (a2, outs) = arrayRun a1 bs in (a2, out @ outs))"

text \<open>
  The calls the tree is used with: positions and ranges inside \<open>[1, mCols]\<close>, ranges not
  empty, values that are residues. \<open>keeps p\<close> holds of a call that does not write
  position \<open>p\<close>.
\<close>

fun validOp :: "int \<Rightarrow> treeOp \<Rightarrow> bool" where
  "validOp m (PointSet p v) = (1 \<le> p \<and> p \<le> m \<and> 0 \<le> v \<and> v < kMod)"
| "validOp m (ZeroAssign l r) = (1 \<le> l \<and> l \<le> r \<and> r \<le> m)"
| "validOp m (RangeSum l r) = (1 \<le> l \<and> l \<le> r \<and> r \<le> m)"

fun keeps :: "int \<Rightarrow> treeOp \<Rightarrow> bool" where
  "keeps p (PointSet q v) = (q \<noteq> p)"
| "keeps p (ZeroAssign l r) = (\<not> (l \<le> p \<and> p \<le> r))"
| "keeps p (RangeSum l r) = True"

section \<open>Inputs, events and the invariants of the sweep\<close>

text \<open>The four corners of a rectangle and its column interval \<open>(y1, y2)\<close>.\<close>

fun rx1 :: "rect \<Rightarrow> int" where "rx1 (x1, y1, x2, y2) = x1"

fun ry1 :: "rect \<Rightarrow> int" where "ry1 (x1, y1, x2, y2) = y1"

fun rx2 :: "rect \<Rightarrow> int" where "rx2 (x1, y1, x2, y2) = x2"

fun ry2 :: "rect \<Rightarrow> int" where "ry2 (x1, y1, x2, y2) = y2"

definition rcols :: "rect \<Rightarrow> int \<times> int" where
  "rcols r = (ry1 r, ry2 r)"

text \<open>The two bucket arrays as \<open>main\<close> has them once the input is read.\<close>

definition addRangesOf :: "rect list \<Rightarrow> buckets" where
  "addRangesOf rects = fst (readRects rects (\<lambda>_. [], \<lambda>_. []))"

definition delRangesOf :: "rect list \<Rightarrow> buckets" where
  "delRangesOf rects = snd (readRects rects (\<lambda>_. [], \<lambda>_. []))"

text \<open>
  A valid input (section 6 of the specification): corners are 1-indexed, \<open>x1 \<le> x2\<close>,
  \<open>y1 \<le> y2\<close>, rows within \<open>[1, nRows]\<close> and columns within \<open>[1, mCols]\<close>.
\<close>

definition validRect :: "int \<Rightarrow> int \<Rightarrow> rect \<Rightarrow> bool" where
  "validRect nRows mCols r =
     (1 \<le> rx1 r \<and> rx1 r \<le> rx2 r \<and> rx2 r \<le> nRows \<and> 1 \<le> ry1 r \<and> ry1 r \<le> ry2 r \<and> ry2 r \<le> mCols)"

definition validInput :: "int \<Rightarrow> int \<Rightarrow> rect list \<Rightarrow> bool" where
  "validInput nRows mCols rects = (1 \<le> nRows \<and> 1 \<le> mCols \<and> list_all (validRect nRows mCols) rects)"

text \<open>
  The column intervals of the obstacles whose row span contains row \<open>i\<close>;
  \<open>noEqualOverlap\<close>: no rectangle is listed twice, and two rectangles with the same
  column interval have disjoint row spans; \<open>erasePresent S ps\<close>: erasing the members of
  \<open>ps\<close> one after the other from \<open>S\<close>, as the loop of lines 106 and 107 does, never
  meets an interval that is absent.
\<close>

definition activeCols :: "rect list \<Rightarrow> int \<Rightarrow> segs" where
  "activeCols rects i = set (map rcols (filter (\<lambda>r. rx1 r \<le> i \<and> i \<le> rx2 r) rects))"

definition noEqualOverlap :: "rect list \<Rightarrow> bool" where
  "noEqualOverlap rects =
     (distinct rects \<and>
      list_all (\<lambda>a. list_all (\<lambda>b. a = b \<or> rcols a \<noteq> rcols b \<or> rx2 a < rx1 b \<or> rx2 b < rx1 a) rects) rects)"

fun erasePresent :: "segs \<Rightarrow> (int \<times> int) list \<Rightarrow> bool" where
  "erasePresent S [] = True"
| "erasePresent S (p # ps) = (p \<in> S \<and> erasePresent (S - {p}) ps)"

text \<open>
  The range sum that the tree returns for \<open>[l, r]\<close> once the rows up to \<open>i\<close> have been
  processed.
\<close>

definition sumAfter :: "int \<Rightarrow> rect list \<Rightarrow> int \<Rightarrow> int \<Rightarrow> int \<Rightarrow> int option" where
  "sumAfter mCols rects i l r =
     do { st \<leftarrow> stateAfter mCols rects i; (t, s) \<leftarrow> queryRange (fst st) 1 l r; Some s }"

text \<open>
  Invariants of the sweep. A member of the active set is the sentinel or an interval
  inside \<open>[1, mCols]\<close>; the array is zero on every member of the active set, column 1
  apart (the base case \<open>ways[1] = 1\<close> is written before any obstacle is zeroed);
  \<open>col1Zeroed\<close>: some obstacle that starts in column 1 has been activated at a row
  \<open>\<ge> 2\<close>.
\<close>

definition segOk :: "int \<Rightarrow> int \<times> int \<Rightarrow> bool" where
  "segOk m p = (p = (0, 0) \<or> (1 \<le> fst p \<and> fst p \<le> snd p \<and> snd p \<le> m))"

definition zeroCover :: "tree \<Rightarrow> int \<Rightarrow> segs \<Rightarrow> bool" where
  "zeroCover t m S = (\<forall>p\<in>S. \<forall>c. fst p \<le> c \<and> c \<le> snd p \<and> c \<noteq> 1 \<longrightarrow> arr t m c = 0)"

definition good :: "int \<Rightarrow> tree \<times> segs \<Rightarrow> bool" where
  "good m st =
     (treeInv (fst st) m \<and> finite (snd st) \<and> (0, 0) \<in> snd st \<and> (\<forall>p\<in>snd st. segOk m p) \<and>
      zeroCover (fst st) m (snd st))"

definition col1Zeroed :: "rect list \<Rightarrow> int \<Rightarrow> bool" where
  "col1Zeroed rects i = (\<exists>r\<in>set rects. ry1 r = 1 \<and> 2 \<le> rx1 r \<and> rx1 r \<le> i)"

section \<open>Lemmas about the tree\<close>

lemma lson_eq: "lson x = 2 * x"
  by (simp add: lson_def)

lemma rson_eq: "rson x = 2 * x + 1"
proof -
  have "push_bit 1 x OR (1::nat) = push_bit 1 x + of_bool (even (push_bit 1 x))"
    by (rule or_one_eq)
  then show ?thesis by (simp add: rson_def)
qed

lemma mid_eq: "drop_bit 1 (k::int) = k div 2" "drop_bit (Suc 0) (k::int) = k div 2"
  by (simp_all add: drop_bit_eq_div)

lemma sub_self: "x \<in> sub x"
  unfolding sub_def by (auto intro: exI [of _ 0])

lemma sub_lson: "sub (lson x) \<subseteq> sub x"
proof
  fix y assume "y \<in> sub (lson x)"
  then obtain k where "y div 2 ^ k = 2 * x" by (auto simp: sub_def lson_eq)
  then have "y div 2 ^ Suc k = x" by (simp only: power_Suc2 div_mult2_eq)
  then show "y \<in> sub x" unfolding sub_def by blast
qed

lemma sub_rson: "sub (rson x) \<subseteq> sub x"
proof
  fix y assume "y \<in> sub (rson x)"
  then obtain k where "y div 2 ^ k = 2 * x + 1" by (auto simp: sub_def rson_eq)
  then have "y div 2 ^ Suc k = x" by (simp only: power_Suc2 div_mult2_eq)
  then show "y \<in> sub x" unfolding sub_def by blast
qed

lemma sub_ge: "y \<in> sub x \<Longrightarrow> x \<le> y"
  unfolding sub_def by (auto intro: div_le_dividend)

lemma not_sub_lson: "0 < x \<Longrightarrow> x \<notin> sub (lson x)"
  using sub_ge [of x "lson x"] by (auto simp: lson_eq)

lemma not_sub_rson: "x \<notin> sub (rson x)"
  using sub_ge [of x "rson x"] by (auto simp: rson_eq)

lemma sub_disj:
  assumes "0 < x" "y \<in> sub (lson x)" "y \<in> sub (rson x)"
  shows False
proof -
  from assms obtain j k where j: "y div 2 ^ j = 2 * x" and k: "y div 2 ^ k = 2 * x + 1"
    by (auto simp: sub_def lson_eq rson_eq)
  show False
  proof (cases "j \<le> k")
    case True
    then obtain d where d: "k = j + d" using le_Suc_ex by blast
    have "y div 2 ^ k = (y div 2 ^ j) div 2 ^ d"
      by (simp add: d power_add div_mult2_eq)
    also have "\<dots> \<le> 2 * x" using j by (simp add: div_le_dividend)
    finally show False using k by simp
  next
    case False
    then obtain d where d: "j = k + Suc d" by (metis add_Suc_right less_imp_Suc_add not_le)
    have "y div 2 ^ j = (y div 2 ^ k) div 2 ^ Suc d"
      by (simp only: d power_add div_mult2_eq)
    also have "\<dots> = ((2 * x + 1) div 2) div 2 ^ d"
      using k by (simp add: div_mult2_eq)
    also have "\<dots> \<le> x" by (simp add: div_le_dividend)
    finally show False using j assms(1) by simp
  qed
qed

lemma kMod_pos: "0 < kMod"
  by (simp add: kMod_def)

lemma segInv_leaf:
  "segInv t x lo lo = (0 < x \<and> n_l (t x) = lo \<and> n_r (t x) = lo \<and> 0 \<le> n_sum (t x) \<and> n_sum (t x) < kMod)"
  by (subst segInv.simps) simp

lemma segInv_node:
  "lo < hi \<Longrightarrow> segInv t x lo hi =
     (0 < x \<and> n_l (t x) = lo \<and> n_r (t x) = hi \<and>
      segInv t (lson x) lo ((lo + hi) div 2) \<and>
      segInv t (rson x) ((lo + hi) div 2 + 1) hi \<and>
      n_sum (t x) =
        (if n_tag (t x) \<noteq> 0 then 0
         else (n_sum (t (lson x)) + n_sum (t (rson x))) mod kMod))"
  by (subst segInv.simps) simp

lemma segInv_le: "segInv t x lo hi \<Longrightarrow> lo \<le> hi"
  by (subst (asm) segInv.simps) (simp split: if_splits)

lemma segInv_fields: "segInv t x lo hi \<Longrightarrow> 0 < x \<and> n_l (t x) = lo \<and> n_r (t x) = hi"
  by (subst (asm) segInv.simps) simp

lemma segInv_sum_range: "segInv t x lo hi \<Longrightarrow> 0 \<le> n_sum (t x) \<and> n_sum (t x) < kMod"
  by (subst (asm) segInv.simps) (simp split: if_splits add: kMod_pos)

lemma valAt_leaf: "valAt t x lo lo i = n_sum (t x)"
  by (subst valAt.simps) simp

lemma valAt_node:
  "lo < hi \<Longrightarrow> valAt t x lo hi i =
     (if n_tag (t x) \<noteq> 0 then 0
      else if i \<le> (lo + hi) div 2 then valAt t (lson x) lo ((lo + hi) div 2) i
      else valAt t (rson x) ((lo + hi) div 2 + 1) hi i)"
  by (subst valAt.simps) simp

lemma segInv_cong:
  "(\<And>y. y \<in> sub x \<Longrightarrow> t' y = t y) \<Longrightarrow> segInv t' x lo hi = segInv t x lo hi"
proof (induction "nat (hi - lo)" arbitrary: x lo hi rule: less_induct)
  case less
  have x: "t' x = t x" using less.prems sub_self by blast
  show ?case
  proof (cases "lo < hi")
    case True
    let ?m = "(lo + hi) div 2"
    have l: "segInv t' (lson x) lo ?m = segInv t (lson x) lo ?m"
      using True less.prems sub_lson by (intro less.hyps) auto
    have r: "segInv t' (rson x) (?m + 1) hi = segInv t (rson x) (?m + 1) hi"
      using True less.prems sub_rson by (intro less.hyps) auto
    have "t' (lson x) = t (lson x)" "t' (rson x) = t (rson x)"
      using less.prems sub_lson sub_rson sub_self by blast+
    then show ?thesis using True l r x by (simp add: segInv_node)
  next
    case False
    then show ?thesis using x by (simp add: segInv.simps [of t' x] segInv.simps [of t x])
  qed
qed

lemma valAt_cong:
  "(\<And>y. y \<in> sub x \<Longrightarrow> t' y = t y) \<Longrightarrow> valAt t' x lo hi i = valAt t x lo hi i"
proof (induction "nat (hi - lo)" arbitrary: x lo hi rule: less_induct)
  case less
  have x: "t' x = t x" using less.prems sub_self by blast
  show ?case
  proof (cases "lo < hi")
    case True
    let ?m = "(lo + hi) div 2"
    have l: "valAt t' (lson x) lo ?m i = valAt t (lson x) lo ?m i"
      using True less.prems sub_lson by (intro less.hyps) auto
    have r: "valAt t' (rson x) (?m + 1) hi i = valAt t (rson x) (?m + 1) hi i"
      using True less.prems sub_rson by (intro less.hyps) auto
    show ?thesis using True l r x by (simp add: valAt_node)
  next
    case False
    then show ?thesis using x by (simp add: valAt.simps [of t' x] valAt.simps [of t x])
  qed
qed

lemma valAt_range:
  "segInv t x lo hi \<Longrightarrow> 0 \<le> valAt t x lo hi i \<and> valAt t x lo hi i < kMod"
proof (induction "nat (hi - lo)" arbitrary: x lo hi rule: less_induct)
  case less
  show ?case
  proof (cases "lo < hi")
    case True
    let ?m = "(lo + hi) div 2"
    from less.prems True have l: "segInv t (lson x) lo ?m" and r: "segInv t (rson x) (?m + 1) hi"
      by (simp_all add: segInv_node)
    have "0 \<le> valAt t (lson x) lo ?m i \<and> valAt t (lson x) lo ?m i < kMod"
      using True l by (intro less.hyps) auto
    moreover have "0 \<le> valAt t (rson x) (?m + 1) hi i \<and> valAt t (rson x) (?m + 1) hi i < kMod"
      using True r by (intro less.hyps) auto
    ultimately show ?thesis using True by (simp add: valAt_node kMod_pos)
  next
    case False
    with less.prems have "lo = hi" using segInv_le by fastforce
    then show ?thesis using less.prems segInv_sum_range by (simp add: valAt_leaf)
  qed
qed

lemma sum_split_int:
  fixes f :: "int \<Rightarrow> int"
  assumes "lo \<le> m + 1" "m \<le> hi"
  shows "(\<Sum>i = lo..hi. f i) = (\<Sum>i = lo..m. f i) + (\<Sum>i = m + 1..hi. f i)"
proof -
  have "{lo..hi} = {lo..m} \<union> {m + 1..hi}" using assms by auto
  moreover have "{lo..m} \<inter> {m + 1..hi} = {}" by auto
  ultimately show ?thesis by (simp add: sum.union_disjoint)
qed

lemma segInv_sum:
  "segInv t x lo hi \<Longrightarrow> n_sum (t x) = (\<Sum>i = lo..hi. valAt t x lo hi i) mod kMod"
proof (induction "nat (hi - lo)" arbitrary: x lo hi rule: less_induct)
  case less
  show ?case
  proof (cases "lo < hi")
    case True
    let ?m = "(lo + hi) div 2"
    from less.prems True have l: "segInv t (lson x) lo ?m" and r: "segInv t (rson x) (?m + 1) hi"
      and s: "n_sum (t x) = (if n_tag (t x) \<noteq> 0 then 0
                else (n_sum (t (lson x)) + n_sum (t (rson x))) mod kMod)"
      by (simp_all add: segInv_node)
    show ?thesis
    proof (cases "n_tag (t x) \<noteq> 0")
      case True
      then show ?thesis using s \<open>lo < hi\<close> by (simp add: valAt_node)
    next
      case False
      have ls: "n_sum (t (lson x)) = (\<Sum>i = lo..?m. valAt t (lson x) lo ?m i) mod kMod"
        using True l by (intro less.hyps) auto
      have rs: "n_sum (t (rson x)) = (\<Sum>i = ?m + 1..hi. valAt t (rson x) (?m + 1) hi i) mod kMod"
        using True r by (intro less.hyps) auto
      have a: "(\<Sum>i = lo..?m. valAt t x lo hi i) = (\<Sum>i = lo..?m. valAt t (lson x) lo ?m i)"
        using True False by (intro sum.cong) (auto simp: valAt_node)
      have b: "(\<Sum>i = ?m + 1..hi. valAt t x lo hi i) = (\<Sum>i = ?m + 1..hi. valAt t (rson x) (?m + 1) hi i)"
        using True False by (intro sum.cong) (auto simp: valAt_node)
      have c: "(\<Sum>i = lo..hi. valAt t x lo hi i) =
            (\<Sum>i = lo..?m. valAt t x lo hi i) + (\<Sum>i = ?m + 1..hi. valAt t x lo hi i)"
        using True by (intro sum_split_int) auto
      from s False have "n_sum (t x) = (n_sum (t (lson x)) + n_sum (t (rson x))) mod kMod"
        by simp
      also have "\<dots> = ((\<Sum>i = lo..?m. valAt t (lson x) lo ?m i) mod kMod +
                       (\<Sum>i = ?m + 1..hi. valAt t (rson x) (?m + 1) hi i) mod kMod) mod kMod"
        by (simp only: ls rs)
      also have "\<dots> = ((\<Sum>i = lo..?m. valAt t (lson x) lo ?m i) +
                       (\<Sum>i = ?m + 1..hi. valAt t (rson x) (?m + 1) hi i)) mod kMod"
        by (rule mod_add_eq)
      also have "\<dots> = (\<Sum>i = lo..hi. valAt t x lo hi i) mod kMod"
        by (simp only: c a b)
      finally show ?thesis .
    qed
  next
    case False
    with less.prems have e: "lo = hi" using segInv_le by fastforce
    have "n_sum (t x) mod kMod = n_sum (t x)"
      using segInv_sum_range [OF less.prems] by simp
    then show ?thesis using e by (simp add: valAt_leaf)
  qed
qed

lemma sub_cases:
  assumes "0 < x"
  shows "lson x \<noteq> x" "rson x \<noteq> x" "lson x \<noteq> rson x"
    "y \<in> sub (lson x) \<Longrightarrow> y \<noteq> x \<and> y \<noteq> rson x \<and> y \<in> sub x \<and> y \<notin> sub (rson x)"
    "y \<in> sub (rson x) \<Longrightarrow> y \<noteq> x \<and> y \<noteq> lson x \<and> y \<in> sub x \<and> y \<notin> sub (lson x)"
proof -
  show "lson x \<noteq> x" "rson x \<noteq> x" "lson x \<noteq> rson x"
    using assms by (simp_all add: lson_eq rson_eq)
  show "y \<in> sub (lson x) \<Longrightarrow> y \<noteq> x \<and> y \<noteq> rson x \<and> y \<in> sub x \<and> y \<notin> sub (rson x)"
    using assms not_sub_lson [of x] sub_disj [of x y] sub_self [of "rson x"] sub_lson [of x]
      sub_disj [of x "rson x"]
    by auto
  show "y \<in> sub (rson x) \<Longrightarrow> y \<noteq> x \<and> y \<noteq> lson x \<and> y \<in> sub x \<and> y \<notin> sub (lson x)"
    using assms not_sub_rson [of x] sub_disj [of x y] sub_self [of "lson x"] sub_rson [of x]
      sub_disj [of x "lson x"]
    by auto
qed

lemma pushDown_apply:
  "0 < x \<Longrightarrow> pushDown t x y =
     (if n_tag (t x) = 0 then t y
      else if y = x then (t x)\<lparr>n_tag := 0\<rparr>
      else if y = lson x \<or> y = rson x then (t y)\<lparr>n_tag := 1, n_sum := 0\<rparr>
      else t y)"
  by (auto simp: pushDown_def Let_def lson_eq rson_eq)

lemma segInv_setz:
  assumes "segInv t c lo hi" "t' c = (t c)\<lparr>n_tag := 1, n_sum := 0\<rparr>"
    and "\<And>y. y \<in> sub c \<Longrightarrow> y \<noteq> c \<Longrightarrow> t' y = t y"
  shows "segInv t' c lo hi" "valAt t' c lo hi i = 0"
proof -
  have c: "0 < c" using assms(1) segInv_fields by blast
  show "segInv t' c lo hi"
  proof (cases "lo < hi")
    case True
    have "segInv t' (lson c) lo ((lo + hi) div 2) = segInv t (lson c) lo ((lo + hi) div 2)"
      using sub_cases(4) [OF c] assms(3) by (intro segInv_cong) blast
    moreover have "segInv t' (rson c) ((lo + hi) div 2 + 1) hi = segInv t (rson c) ((lo + hi) div 2 + 1) hi"
      using sub_cases(5) [OF c] assms(3) by (intro segInv_cong) blast
    ultimately show ?thesis using assms(1,2) True by (simp add: segInv_node)
  next
    case False
    with assms(1) have "lo = hi" using segInv_le by fastforce
    then show ?thesis using assms(1,2) by (simp add: segInv_leaf kMod_pos)
  qed
  show "valAt t' c lo hi i = 0"
    using assms(2) by (subst valAt.simps) simp
qed

lemma pushDown_segInv:
  assumes "segInv t x lo hi" "lo < hi"
  shows "segInv (pushDown t x) x lo hi"
    and "n_tag (pushDown t x x) = 0"
    and "n_l (pushDown t x x) = lo"
    and "n_r (pushDown t x x) = hi"
    and "valAt (pushDown t x) x lo hi i = valAt t x lo hi i"
    and "y \<notin> sub x \<Longrightarrow> pushDown t x y = t y"
proof -
  let ?t = "pushDown t x"
  let ?m = "(lo + hi) div 2"
  have x: "0 < x" using assms(1) segInv_fields by blast
  note sc = sub_cases [OF x]
  have f: "n_l (t x) = lo" "n_r (t x) = hi" using assms(1) segInv_fields by blast+
  show "n_tag (?t x) = 0" "n_l (?t x) = lo" "n_r (?t x) = hi"
    using f by (simp_all add: pushDown_apply [OF x])
  show "y \<notin> sub x \<Longrightarrow> ?t y = t y"
    using sub_self [of x] sub_lson [of x] sub_rson [of x] sub_self [of "lson x"] sub_self [of "rson x"]
    by (auto simp: pushDown_apply [OF x])
  show "segInv ?t x lo hi" "valAt ?t x lo hi i = valAt t x lo hi i"
  proof -
    have "segInv ?t x lo hi \<and> valAt ?t x lo hi i = valAt t x lo hi i"
    proof (cases "n_tag (t x) = 0")
      case True
      then have "?t = t" by (simp add: pushDown_def)
      then show ?thesis using assms(1) by simp
    next
      case False
      from assms have l: "segInv t (lson x) lo ?m" and r: "segInv t (rson x) (?m + 1) hi"
        and s: "n_sum (t x) = 0"
        using False by (simp_all add: segInv_node)
      have tl: "?t (lson x) = (t (lson x))\<lparr>n_tag := 1, n_sum := 0\<rparr>"
        using False sc(1) by (simp add: pushDown_apply [OF x])
      have tr: "?t (rson x) = (t (rson x))\<lparr>n_tag := 1, n_sum := 0\<rparr>"
        using False sc(2) by (simp add: pushDown_apply [OF x])
      have fl: "\<And>y. y \<in> sub (lson x) \<Longrightarrow> y \<noteq> lson x \<Longrightarrow> ?t y = t y"
        using sc(4) by (simp add: pushDown_apply [OF x])
      have fr: "\<And>y. y \<in> sub (rson x) \<Longrightarrow> y \<noteq> rson x \<Longrightarrow> ?t y = t y"
        using sc(5) by (simp add: pushDown_apply [OF x])
      note zl = segInv_setz [OF l tl fl]
      note zr = segInv_setz [OF r tr fr]
      have tx: "?t x = (t x)\<lparr>n_tag := 0\<rparr>"
        using False by (simp add: pushDown_apply [OF x])
      have "segInv ?t x lo hi"
        using assms(2) x f zl(1) zr(1) tx tl tr s by (simp add: segInv_node)
      moreover have "valAt ?t x lo hi i = 0"
        using assms(2) tx zl(2) zr(2) by (simp add: valAt_node)
      moreover have "valAt t x lo hi i = 0"
        using assms(2) False by (simp add: valAt_node)
      ultimately show ?thesis by simp
    qed
    then show "segInv ?t x lo hi" "valAt ?t x lo hi i = valAt t x lo hi i" by simp_all
  qed
qed

lemma combine_children:
  assumes x: "0 < x" and lh: "lo < hi"
    and t1: "segInv t1 x lo hi" "n_tag (t1 x) = 0"
    and t2: "segInv t2 (lson x) lo ((lo + hi) div 2)" "\<And>y. y \<notin> sub (lson x) \<Longrightarrow> t2 y = t1 y"
    and t3: "segInv t3 (rson x) ((lo + hi) div 2 + 1) hi" "\<And>y. y \<notin> sub (rson x) \<Longrightarrow> t3 y = t2 y"
    and t4: "t4 x = (t3 x)\<lparr>n_sum := (n_sum (t3 (lson x)) + n_sum (t3 (rson x))) mod kMod\<rparr>"
      "\<And>y. y \<noteq> x \<Longrightarrow> t4 y = t3 y"
  shows "segInv t4 x lo hi"
    and "valAt t4 x lo hi i =
      (if i \<le> (lo + hi) div 2 then valAt t2 (lson x) lo ((lo + hi) div 2) i
       else valAt t3 (rson x) ((lo + hi) div 2 + 1) hi i)"
    and "y \<notin> sub x \<Longrightarrow> t4 y = t1 y"
proof -
  let ?m = "(lo + hi) div 2"
  note sc = sub_cases [OF x]
  have t3x: "t3 x = t1 x"
    using t2(2) [of x] t3(2) [of x] not_sub_lson [OF x] not_sub_rson [of x] by simp
  have l3: "\<And>y. y \<in> sub (lson x) \<Longrightarrow> t4 y = t2 y"
    using sc(4) t4(2) t3(2) by metis
  have r3: "\<And>y. y \<in> sub (rson x) \<Longrightarrow> t4 y = t3 y"
    using sc(5) t4(2) by metis
  have il: "segInv t4 (lson x) lo ?m"
    using segInv_cong [of "lson x" t4 t2, OF l3] t2(1) by simp
  have ir: "segInv t4 (rson x) (?m + 1) hi"
    using segInv_cong [of "rson x" t4 t3, OF r3] t3(1) by simp
  have f: "n_l (t1 x) = lo" "n_r (t1 x) = hi" using t1(1) segInv_fields by blast+
  have sl: "t4 (lson x) = t3 (lson x)" "t4 (rson x) = t3 (rson x)"
    using t4(2) sc(1,2) by simp_all
  show "segInv t4 x lo hi"
    using lh x il ir f t4(1) t3x t1(2) sl by (simp add: segInv_node)
  have "n_tag (t4 x) = 0" using t4(1) t3x t1(2) by simp
  moreover have "valAt t4 (lson x) lo ?m i = valAt t2 (lson x) lo ?m i"
    using valAt_cong [of "lson x" t4 t2, OF l3] by simp
  moreover have "valAt t4 (rson x) (?m + 1) hi i = valAt t3 (rson x) (?m + 1) hi i"
    using valAt_cong [of "rson x" t4 t3, OF r3] by simp
  ultimately show "valAt t4 x lo hi i =
      (if i \<le> ?m then valAt t2 (lson x) lo ?m i else valAt t3 (rson x) (?m + 1) hi i)"
    using lh by (simp add: valAt_node)
  show "y \<notin> sub x \<Longrightarrow> t4 y = t1 y"
  proof -
    assume a: "y \<notin> sub x"
    then have "y \<noteq> x" "y \<notin> sub (lson x)" "y \<notin> sub (rson x)"
      using sub_self [of x] sub_lson [of x] sub_rson [of x] by auto
    then show ?thesis using t4(2) [of y] t3(2) [of y] t2(2) [of y] by simp
  qed
qed

lemma pushUp_apply:
  assumes "0 < x" "segInv t (lson x) a b" "segInv t (rson x) c d"
  shows "pushUp t x x = (t x)\<lparr>n_sum := (n_sum (t (lson x)) + n_sum (t (rson x))) mod kMod\<rparr>"
    and "y \<noteq> x \<Longrightarrow> pushUp t x y = t y"
proof -
  have "0 \<le> n_sum (t (lson x)) + n_sum (t (rson x))"
    using segInv_sum_range [OF assms(2)] segInv_sum_range [OF assms(3)] by simp
  then have "(n_sum (t (lson x)) + n_sum (t (rson x))) smod kMod =
      (n_sum (t (lson x)) + n_sum (t (rson x))) mod kMod"
    using kMod_pos by (intro smod_mod_positive) simp_all
  then show "pushUp t x x = (t x)\<lparr>n_sum := (n_sum (t (lson x)) + n_sum (t (rson x))) mod kMod\<rparr>"
    by (simp add: pushUp_def)
  show "y \<noteq> x \<Longrightarrow> pushUp t x y = t y"
    by (simp add: pushUp_def)
qed

lemma segInv_other_child:
  assumes "0 < x" "\<And>y. y \<notin> sub (lson x) \<Longrightarrow> t2 y = t1 y"
  shows "segInv t2 (rson x) c d = segInv t1 (rson x) c d"
    and "valAt t2 (rson x) c d i = valAt t1 (rson x) c d i"
  using sub_cases(5) [OF assms(1)] assms(2)
  by (intro segInv_cong valAt_cong; blast)+

lemma updatePoint_correct:
  assumes "segInv t x lo hi" "lo \<le> pos" "pos \<le> hi" "0 \<le> v" "v < kMod"
  shows "\<exists>t'. updatePoint t x pos v = Some t' \<and> segInv t' x lo hi \<and>
      (\<forall>y. y \<notin> sub x \<longrightarrow> t' y = t y) \<and>
      (\<forall>i. lo \<le> i \<and> i \<le> hi \<longrightarrow>
         valAt t' x lo hi i = (if i = pos then v else valAt t x lo hi i))"
  using assms
proof (induction "nat (hi - lo)" arbitrary: t x lo hi rule: less_induct)
  case less
  have x: "0 < x" and f: "n_l (t x) = lo" "n_r (t x) = hi"
    using less.prems(1) segInv_fields by blast+
  show ?case
  proof (cases "lo < hi")
    case False
    then have e: "hi = lo" using less.prems by simp
    let ?t' = "t(x := (t x)\<lparr>n_sum := v\<rparr>)"
    have "updatePoint t x pos v = Some ?t'"
      using f e by (subst updatePoint.simps) simp
    moreover have "segInv ?t' x lo hi"
      using less.prems e x f by (simp add: segInv_leaf)
    moreover have "\<forall>y. y \<notin> sub x \<longrightarrow> ?t' y = t y"
      using sub_self by auto
    moreover have "\<forall>i. lo \<le> i \<and> i \<le> hi \<longrightarrow>
        valAt ?t' x lo hi i = (if i = pos then v else valAt t x lo hi i)"
      using e less.prems by (auto simp: valAt_leaf)
    ultimately show ?thesis by blast
  next
    case True
    let ?m = "(lo + hi) div 2"
    let ?t1 = "pushDown t x"
    note pd = pushDown_segInv [OF less.prems(1) True]
    have c1: "segInv ?t1 (lson x) lo ?m" "segInv ?t1 (rson x) (?m + 1) hi"
      using pd(1) True by (simp_all add: segInv_node)
    have eq: "updatePoint t x pos v =
        (if pos \<le> ?m then updatePoint ?t1 (lson x) pos v else Some ?t1) \<bind>
        (\<lambda>t2. (if ?m < pos then updatePoint t2 (rson x) pos v else Some t2) \<bind>
        (\<lambda>t3. Some (pushUp t3 x)))"
      using f True pd(3,4) by (subst updatePoint.simps) (simp add: Let_def mid_eq)
    have "\<exists>t2. (if pos \<le> ?m then updatePoint ?t1 (lson x) pos v else Some ?t1) = Some t2 \<and>
        segInv t2 (lson x) lo ?m \<and> (\<forall>y. y \<notin> sub (lson x) \<longrightarrow> t2 y = ?t1 y) \<and>
        (\<forall>i. lo \<le> i \<and> i \<le> ?m \<longrightarrow>
           valAt t2 (lson x) lo ?m i = (if i = pos then v else valAt ?t1 (lson x) lo ?m i))"
    proof (cases "pos \<le> ?m")
      case True
      then show ?thesis
        using less.hyps [of ?m lo ?t1 "lson x"] c1(1) \<open>lo < hi\<close> less.prems by simp
    next
      case False
      then show ?thesis using c1(1) by auto
    qed
    then obtain t2 where t2: "(if pos \<le> ?m then updatePoint ?t1 (lson x) pos v else Some ?t1) = Some t2"
      "segInv t2 (lson x) lo ?m" "\<And>y. y \<notin> sub (lson x) \<Longrightarrow> t2 y = ?t1 y"
      "\<And>i. lo \<le> i \<and> i \<le> ?m \<Longrightarrow>
           valAt t2 (lson x) lo ?m i = (if i = pos then v else valAt ?t1 (lson x) lo ?m i)"
      by blast
    note oc = segInv_other_child [OF x t2(3)]
    have c2: "segInv t2 (rson x) (?m + 1) hi" using oc(1) c1(2) by simp
    have "\<exists>t3. (if ?m < pos then updatePoint t2 (rson x) pos v else Some t2) = Some t3 \<and>
        segInv t3 (rson x) (?m + 1) hi \<and> (\<forall>y. y \<notin> sub (rson x) \<longrightarrow> t3 y = t2 y) \<and>
        (\<forall>i. ?m + 1 \<le> i \<and> i \<le> hi \<longrightarrow>
           valAt t3 (rson x) (?m + 1) hi i = (if i = pos then v else valAt t2 (rson x) (?m + 1) hi i))"
    proof (cases "?m < pos")
      case True
      then show ?thesis
        using less.hyps [of hi "?m + 1" t2 "rson x"] c2 \<open>lo < hi\<close> less.prems by simp
    next
      case False
      then show ?thesis using c2 by auto
    qed
    then obtain t3 where t3: "(if ?m < pos then updatePoint t2 (rson x) pos v else Some t2) = Some t3"
      "segInv t3 (rson x) (?m + 1) hi" "\<And>y. y \<notin> sub (rson x) \<Longrightarrow> t3 y = t2 y"
      "\<And>i. ?m + 1 \<le> i \<and> i \<le> hi \<Longrightarrow>
           valAt t3 (rson x) (?m + 1) hi i = (if i = pos then v else valAt t2 (rson x) (?m + 1) hi i)"
      by blast
    let ?t' = "pushUp t3 x"
    have l3: "segInv t3 (lson x) lo ?m"
      using segInv_cong [of "lson x" t3 t2] t3(3) sub_cases(4) [OF x] t2(2) by blast
    note pu = pushUp_apply [OF x l3 t3(2)]
    note cc = combine_children [OF x True pd(1) pd(2) t2(2) t2(3) t3(2) t3(3) pu]
    have r: "updatePoint t x pos v = Some ?t'"
      using eq t2(1) t3(1) by simp
    have v: "\<forall>i. lo \<le> i \<and> i \<le> hi \<longrightarrow>
        valAt ?t' x lo hi i = (if i = pos then v else valAt t x lo hi i)"
    proof (intro allI impI)
      fix i assume i: "lo \<le> i \<and> i \<le> hi"
      have a: "valAt t x lo hi i =
          (if i \<le> ?m then valAt ?t1 (lson x) lo ?m i else valAt ?t1 (rson x) (?m + 1) hi i)"
        using pd(5) [of i, symmetric] pd(2) True by (simp add: valAt_node)
      show "valAt ?t' x lo hi i = (if i = pos then v else valAt t x lo hi i)"
      proof (cases "i \<le> ?m")
        case True
        then show ?thesis using cc(2) [of i] a t2(4) [of i] i by simp
      next
        case False
        then show ?thesis using cc(2) [of i] a t3(4) [of i] i oc(2) by simp
      qed
    qed
    have "\<forall>y. y \<notin> sub x \<longrightarrow> ?t' y = t y"
      using cc(3) pd(6) by simp
    then show ?thesis using r cc(1) v by blast
  qed
qed

lemma zeroRange_correct:
  assumes "segInv t x lo hi" "l \<le> hi" "lo \<le> r"
  shows "\<exists>t'. zeroRange t x l r = Some t' \<and> segInv t' x lo hi \<and>
      (\<forall>y. y \<notin> sub x \<longrightarrow> t' y = t y) \<and>
      (\<forall>i. lo \<le> i \<and> i \<le> hi \<longrightarrow>
         valAt t' x lo hi i = (if l \<le> i \<and> i \<le> r then 0 else valAt t x lo hi i))"
  using assms
proof (induction "nat (hi - lo)" arbitrary: t x lo hi rule: less_induct)
  case less
  have x: "0 < x" and f: "n_l (t x) = lo" "n_r (t x) = hi"
    using less.prems(1) segInv_fields by blast+
  show ?case
  proof (cases "l \<le> lo \<and> hi \<le> r")
    case True
    let ?t' = "t(x := (t x)\<lparr>n_tag := 1, n_sum := 0\<rparr>)"
    have "zeroRange t x l r = Some ?t'"
      using f True by (subst zeroRange.simps) simp
    moreover have "segInv ?t' x lo hi" "\<And>i. valAt ?t' x lo hi i = 0"
      using segInv_setz [OF less.prems(1), of ?t'] by simp_all
    moreover have "\<forall>y. y \<notin> sub x \<longrightarrow> ?t' y = t y"
      using sub_self by auto
    ultimately show ?thesis using True by auto
  next
    case False
    then have lh: "lo < hi" using less.prems segInv_le [OF less.prems(1)] by auto
    let ?m = "(lo + hi) div 2"
    let ?t1 = "pushDown t x"
    note pd = pushDown_segInv [OF less.prems(1) lh]
    have c1: "segInv ?t1 (lson x) lo ?m" "segInv ?t1 (rson x) (?m + 1) hi"
      using pd(1) lh by (simp_all add: segInv_node)
    have eq: "zeroRange t x l r =
        (if l \<le> ?m then zeroRange ?t1 (lson x) l r else Some ?t1) \<bind>
        (\<lambda>t2. (if ?m < r then zeroRange t2 (rson x) l r else Some t2) \<bind>
        (\<lambda>t3. Some (pushUp t3 x)))"
    proof -
      have nc: "(l \<le> lo \<and> hi \<le> r) = False" using False by simp
      show ?thesis
        using f pd(3,4) by (subst zeroRange.simps) (simp add: Let_def mid_eq nc)
    qed
    have "\<exists>t2. (if l \<le> ?m then zeroRange ?t1 (lson x) l r else Some ?t1) = Some t2 \<and>
        segInv t2 (lson x) lo ?m \<and> (\<forall>y. y \<notin> sub (lson x) \<longrightarrow> t2 y = ?t1 y) \<and>
        (\<forall>i. lo \<le> i \<and> i \<le> ?m \<longrightarrow>
           valAt t2 (lson x) lo ?m i = (if l \<le> i \<and> i \<le> r then 0 else valAt ?t1 (lson x) lo ?m i))"
    proof (cases "l \<le> ?m")
      case True
      then show ?thesis
        using less.hyps [of ?m lo ?t1 "lson x"] c1(1) lh less.prems by simp
    next
      case False
      then show ?thesis using c1(1) by auto
    qed
    then obtain t2 where t2: "(if l \<le> ?m then zeroRange ?t1 (lson x) l r else Some ?t1) = Some t2"
      "segInv t2 (lson x) lo ?m" "\<And>y. y \<notin> sub (lson x) \<Longrightarrow> t2 y = ?t1 y"
      "\<And>i. lo \<le> i \<and> i \<le> ?m \<Longrightarrow>
           valAt t2 (lson x) lo ?m i = (if l \<le> i \<and> i \<le> r then 0 else valAt ?t1 (lson x) lo ?m i)"
      by blast
    note oc = segInv_other_child [OF x t2(3)]
    have c2: "segInv t2 (rson x) (?m + 1) hi" using oc(1) c1(2) by simp
    have "\<exists>t3. (if ?m < r then zeroRange t2 (rson x) l r else Some t2) = Some t3 \<and>
        segInv t3 (rson x) (?m + 1) hi \<and> (\<forall>y. y \<notin> sub (rson x) \<longrightarrow> t3 y = t2 y) \<and>
        (\<forall>i. ?m + 1 \<le> i \<and> i \<le> hi \<longrightarrow>
           valAt t3 (rson x) (?m + 1) hi i =
             (if l \<le> i \<and> i \<le> r then 0 else valAt t2 (rson x) (?m + 1) hi i))"
    proof (cases "?m < r")
      case True
      then show ?thesis
        using less.hyps [of hi "?m + 1" t2 "rson x"] c2 lh less.prems by simp
    next
      case False
      then show ?thesis using c2 by auto
    qed
    then obtain t3 where t3: "(if ?m < r then zeroRange t2 (rson x) l r else Some t2) = Some t3"
      "segInv t3 (rson x) (?m + 1) hi" "\<And>y. y \<notin> sub (rson x) \<Longrightarrow> t3 y = t2 y"
      "\<And>i. ?m + 1 \<le> i \<and> i \<le> hi \<Longrightarrow>
           valAt t3 (rson x) (?m + 1) hi i =
             (if l \<le> i \<and> i \<le> r then 0 else valAt t2 (rson x) (?m + 1) hi i)"
      by blast
    let ?t' = "pushUp t3 x"
    have l3: "segInv t3 (lson x) lo ?m"
      using segInv_cong [of "lson x" t3 t2] t3(3) sub_cases(4) [OF x] t2(2) by blast
    note pu = pushUp_apply [OF x l3 t3(2)]
    note cc = combine_children [OF x lh pd(1) pd(2) t2(2) t2(3) t3(2) t3(3) pu]
    have r: "zeroRange t x l r = Some ?t'"
      using eq t2(1) t3(1) by simp
    have v: "\<forall>i. lo \<le> i \<and> i \<le> hi \<longrightarrow>
        valAt ?t' x lo hi i = (if l \<le> i \<and> i \<le> r then 0 else valAt t x lo hi i)"
    proof (intro allI impI)
      fix i assume i: "lo \<le> i \<and> i \<le> hi"
      have a: "valAt t x lo hi i =
          (if i \<le> ?m then valAt ?t1 (lson x) lo ?m i else valAt ?t1 (rson x) (?m + 1) hi i)"
        using pd(5) [of i, symmetric] pd(2) lh by (simp add: valAt_node)
      show "valAt ?t' x lo hi i = (if l \<le> i \<and> i \<le> r then 0 else valAt t x lo hi i)"
      proof (cases "i \<le> ?m")
        case True
        then show ?thesis using cc(2) [of i] a t2(4) [of i] i by simp
      next
        case False
        then show ?thesis using cc(2) [of i] a t3(4) [of i] i oc(2) by simp
      qed
    qed
    have "\<forall>y. y \<notin> sub x \<longrightarrow> ?t' y = t y"
      using cc(3) pd(6) by simp
    then show ?thesis using r cc(1) v by blast
  qed
qed

lemma segInv_same_sum:
  assumes "segInv t' c a b" "segInv t c a b" "\<And>i. valAt t' c a b i = valAt t c a b i"
  shows "n_sum (t' c) = n_sum (t c)"
  using segInv_sum [OF assms(1)] segInv_sum [OF assms(2)] assms(3) by simp

lemma sum_split_at:
  fixes f :: "int \<Rightarrow> int"
  shows "(\<Sum>i = a..b. f i) = (\<Sum>i = a..min b m. f i) + (\<Sum>i = max a (m + 1)..b. f i)"
proof -
  have "{a..b} = {a..min b m} \<union> {max a (m + 1)..b}" by auto
  moreover have "{a..min b m} \<inter> {max a (m + 1)..b} = {}" by auto
  ultimately show ?thesis by (simp add: sum.union_disjoint)
qed

lemma smod_residue:
  assumes "0 \<le> a" "0 \<le> b"
  shows "(a + b) smod kMod = (a + b) mod kMod"
  using assms kMod_pos by (intro smod_mod_positive) simp_all

lemma queryRange_correct:
  assumes "segInv t x lo hi" "l \<le> hi" "lo \<le> r"
  shows "\<exists>t' s. queryRange t x l r = Some (t', s) \<and> segInv t' x lo hi \<and>
      (\<forall>y. y \<notin> sub x \<longrightarrow> t' y = t y) \<and>
      (\<forall>i. valAt t' x lo hi i = valAt t x lo hi i) \<and>
      s = (\<Sum>i = max l lo..min r hi. valAt t x lo hi i) mod kMod"
  using assms
proof (induction "nat (hi - lo)" arbitrary: t x lo hi rule: less_induct)
  case less
  have x: "0 < x" and f: "n_l (t x) = lo" "n_r (t x) = hi"
    using less.prems(1) segInv_fields by blast+
  show ?case
  proof (cases "l \<le> lo \<and> hi \<le> r")
    case True
    have "queryRange t x l r = Some (t, n_sum (t x))"
      using f True by (subst queryRange.simps) simp
    moreover have "max l lo = lo" "min r hi = hi" using True by simp_all
    ultimately show ?thesis
      using less.prems(1) segInv_sum [OF less.prems(1)] by simp
  next
    case False
    then have lh: "lo < hi" using less.prems segInv_le [OF less.prems(1)] by auto
    let ?m = "(lo + hi) div 2"
    let ?t1 = "pushDown t x"
    note pd = pushDown_segInv [OF less.prems(1) lh]
    have m: "lo \<le> ?m" "?m < hi" using lh by presburger+
    have c1: "segInv ?t1 (lson x) lo ?m" "segInv ?t1 (rson x) (?m + 1) hi"
      and s1: "n_sum (?t1 x) = (n_sum (?t1 (lson x)) + n_sum (?t1 (rson x))) mod kMod"
      using pd(1,2) lh by (simp_all add: segInv_node)
    let ?L = "if l \<le> ?m
        then queryRange ?t1 (lson x) l r \<bind> (\<lambda>(t', q). Some (t', (0 + q) smod kMod))
        else Some (?t1, 0)"
    let ?R = "\<lambda>t2 tmp1. if ?m < r
        then queryRange t2 (rson x) l r \<bind> (\<lambda>(t', q). Some (t', (tmp1 + q) smod kMod))
        else Some (t2, tmp1)"
    have eq: "queryRange t x l r =
        ?L \<bind> (\<lambda>(t2, tmp1). ?R t2 tmp1 \<bind> (\<lambda>(t3, tmp2). Some (t3, tmp2)))"
    proof -
      have nc: "(l \<le> lo \<and> hi \<le> r) = False" using False by simp
      show ?thesis
        using f pd(3,4) by (subst queryRange.simps) (simp add: Let_def mid_eq nc)
    qed
    let ?A1 = "\<Sum>i = max l lo..min r ?m. valAt ?t1 (lson x) lo ?m i"
    have "\<exists>t2 q1. ?L = Some (t2, q1) \<and>
        segInv t2 (lson x) lo ?m \<and> (\<forall>y. y \<notin> sub (lson x) \<longrightarrow> t2 y = ?t1 y) \<and>
        (\<forall>i. valAt t2 (lson x) lo ?m i = valAt ?t1 (lson x) lo ?m i) \<and>
        q1 = ?A1 mod kMod"
    proof (cases "l \<le> ?m")
      case True
      have "\<exists>t' s. queryRange ?t1 (lson x) l r = Some (t', s) \<and> segInv t' (lson x) lo ?m \<and>
          (\<forall>y. y \<notin> sub (lson x) \<longrightarrow> t' y = ?t1 y) \<and>
          (\<forall>i. valAt t' (lson x) lo ?m i = valAt ?t1 (lson x) lo ?m i) \<and>
          s = ?A1 mod kMod"
        by (rule less.hyps [OF _ c1(1) True less.prems(3)]) (use m in simp)
      then obtain t2 q where q: "queryRange ?t1 (lson x) l r = Some (t2, q)"
        "segInv t2 (lson x) lo ?m" "\<forall>y. y \<notin> sub (lson x) \<longrightarrow> t2 y = ?t1 y"
        "\<forall>i. valAt t2 (lson x) lo ?m i = valAt ?t1 (lson x) lo ?m i"
        "q = ?A1 mod kMod"
        by blast
      have qr: "0 \<le> q" "q < kMod" using q(5) kMod_pos by simp_all
      have "(0 + q) smod kMod = (0 + q) mod kMod"
        by (rule smod_residue) (use qr in simp_all)
      also have "\<dots> = q" using qr by (simp add: mod_pos_pos_trivial)
      finally have "(0 + q) smod kMod = q" .
      then have "?L = Some (t2, q)" using True q(1) by simp
      then show ?thesis using q(2-5) by blast
    next
      case False
      then have "?A1 = 0" by simp
      then show ?thesis using False c1(1) by simp
    qed
    then obtain t2 q1 where t2: "?L = Some (t2, q1)"
      "segInv t2 (lson x) lo ?m" "\<And>y. y \<notin> sub (lson x) \<Longrightarrow> t2 y = ?t1 y"
      "\<And>i. valAt t2 (lson x) lo ?m i = valAt ?t1 (lson x) lo ?m i"
      "q1 = ?A1 mod kMod"
      by blast
    have q1: "0 \<le> q1" "q1 < kMod" using t2(5) kMod_pos by simp_all
    note oc = segInv_other_child [OF x t2(3)]
    have c2: "segInv t2 (rson x) (?m + 1) hi" using oc(1) c1(2) by simp
    let ?A2 = "\<Sum>i = max l (?m + 1)..min r hi. valAt t2 (rson x) (?m + 1) hi i"
    have "\<exists>t3 q2. ?R t2 q1 = Some (t3, q2) \<and>
        segInv t3 (rson x) (?m + 1) hi \<and> (\<forall>y. y \<notin> sub (rson x) \<longrightarrow> t3 y = t2 y) \<and>
        (\<forall>i. valAt t3 (rson x) (?m + 1) hi i = valAt t2 (rson x) (?m + 1) hi i) \<and>
        q2 = (q1 + ?A2) mod kMod"
    proof (cases "?m < r")
      case True
      have mr: "?m + 1 \<le> r" using True by simp
      have "\<exists>t' s. queryRange t2 (rson x) l r = Some (t', s) \<and> segInv t' (rson x) (?m + 1) hi \<and>
          (\<forall>y. y \<notin> sub (rson x) \<longrightarrow> t' y = t2 y) \<and>
          (\<forall>i. valAt t' (rson x) (?m + 1) hi i = valAt t2 (rson x) (?m + 1) hi i) \<and>
          s = ?A2 mod kMod"
        by (rule less.hyps [OF _ c2 less.prems(2) mr]) (use m in simp)
      then obtain t3 q where q: "queryRange t2 (rson x) l r = Some (t3, q)"
        "segInv t3 (rson x) (?m + 1) hi" "\<forall>y. y \<notin> sub (rson x) \<longrightarrow> t3 y = t2 y"
        "\<forall>i. valAt t3 (rson x) (?m + 1) hi i = valAt t2 (rson x) (?m + 1) hi i"
        "q = ?A2 mod kMod"
        by blast
      have "0 \<le> q" using q(5) kMod_pos by simp
      then have "(q1 + q) smod kMod = (q1 + q) mod kMod"
        using q1(1) by (intro smod_residue)
      also have "\<dots> = (q1 + ?A2) mod kMod"
        unfolding q(5) by (rule mod_add_right_eq)
      finally have e: "(q1 + q) smod kMod = (q1 + ?A2) mod kMod" .
      have "?R t2 q1 = Some (t3, (q1 + q) smod kMod)" using True q(1) by simp
      then show ?thesis using q(2-4) e by auto
    next
      case False
      then have "?A2 = 0" by simp
      moreover have "q1 mod kMod = q1" using q1 by (simp add: mod_pos_pos_trivial)
      ultimately show ?thesis using False c2 by simp
    qed
    then obtain t3 q2 where t3: "?R t2 q1 = Some (t3, q2)"
      "segInv t3 (rson x) (?m + 1) hi" "\<And>y. y \<notin> sub (rson x) \<Longrightarrow> t3 y = t2 y"
      "\<And>i. valAt t3 (rson x) (?m + 1) hi i = valAt t2 (rson x) (?m + 1) hi i"
      "q2 = (q1 + ?A2) mod kMod"
      by blast
    have r: "queryRange t x l r = Some (t3, q2)"
      unfolding eq t2(1) by (simp add: t3(1))
    note sc = sub_cases [OF x]
    have t3x: "t3 x = ?t1 x"
      using t2(3) [of x] t3(3) [of x] not_sub_lson [OF x] not_sub_rson [of x] by simp
    have sl: "n_sum (t3 (lson x)) = n_sum (?t1 (lson x))"
    proof -
      have "t3 (lson x) = t2 (lson x)"
        using t3(3) [of "lson x"] sc(4) [of "lson x"] sub_self [of "lson x"] by blast
      then show ?thesis using segInv_same_sum [OF t2(2) c1(1) t2(4)] by simp
    qed
    have sr: "n_sum (t3 (rson x)) = n_sum (?t1 (rson x))"
    proof -
      have "t2 (rson x) = ?t1 (rson x)"
        using t2(3) [of "rson x"] sc(5) [of "rson x"] sub_self [of "rson x"] by blast
      then show ?thesis using segInv_same_sum [OF t3(2) c2 t3(4)] by simp
    qed
    have t4: "t3 x = (t3 x)\<lparr>n_sum := (n_sum (t3 (lson x)) + n_sum (t3 (rson x))) mod kMod\<rparr>"
      using s1 by (simp add: sl sr t3x)
    note cc = combine_children [OF x lh pd(1) pd(2) t2(2) t2(3) t3(2) t3(3) t4 refl]
    have v1: "\<And>i. valAt t x lo hi i =
        (if i \<le> ?m then valAt ?t1 (lson x) lo ?m i else valAt ?t1 (rson x) (?m + 1) hi i)"
      using pd(5) [symmetric] pd(2) lh by (simp add: valAt_node)
    have v: "\<forall>i. valAt t3 x lo hi i = valAt t x lo hi i"
      using cc(2) v1 t2(4) t3(4) oc(2) by simp
    have a1: "(\<Sum>i = max l lo..min (min r hi) ?m. valAt t x lo hi i) = ?A1"
    proof -
      have "min (min r hi) ?m = min r ?m" using m by simp
      then show ?thesis using v1 by (intro sum.cong) auto
    qed
    have a2: "(\<Sum>i = max (max l lo) (?m + 1)..min r hi. valAt t x lo hi i) = ?A2"
    proof -
      have "max (max l lo) (?m + 1) = max l (?m + 1)" using m by simp
      then show ?thesis using v1 oc(2) by (intro sum.cong) auto
    qed
    have sp: "(\<Sum>i = max l lo..min r hi. valAt t x lo hi i) = ?A1 + ?A2"
      by (subst sum_split_at [of _ _ _ ?m]) (simp only: a1 a2)
    have "q2 = (?A1 mod kMod + ?A2) mod kMod" unfolding t3(5) t2(5) ..
    also have "\<dots> = (?A1 + ?A2) mod kMod" by (rule mod_add_left_eq)
    finally have "q2 = (\<Sum>i = max l lo..min r hi. valAt t x lo hi i) mod kMod"
      by (simp only: sp)
    moreover have "\<forall>y. y \<notin> sub x \<longrightarrow> t3 y = t y"
      using cc(3) pd(6) by simp
    ultimately show ?thesis using r cc(1) v by blast
  qed
qed

lemma buildTree_correct:
  assumes "0 < x" "lo \<le> hi" "\<And>y. y \<in> sub x \<Longrightarrow> n_tag (t y) = 0 \<and> n_sum (t y) = 0"
  shows "\<exists>t'. buildTree t x lo hi = Some t' \<and> segInv t' x lo hi \<and>
      (\<forall>y. y \<notin> sub x \<longrightarrow> t' y = t y) \<and>
      (\<forall>y. n_tag (t' y) = n_tag (t y) \<and> n_sum (t' y) = n_sum (t y)) \<and>
      (\<forall>i. valAt t' x lo hi i = 0)"
  using assms
proof (induction "nat (hi - lo)" arbitrary: t x lo hi rule: less_induct)
  case less
  note x = less.prems(1)
  note sc = sub_cases [OF x]
  let ?t1 = "t(x := (t x)\<lparr>n_l := lo, n_r := hi\<rparr>)"
  have z: "n_tag (t x) = 0" "n_sum (t x) = 0" using less.prems(3) sub_self by blast+
  have p1: "\<And>y. n_tag (?t1 y) = n_tag (t y) \<and> n_sum (?t1 y) = n_sum (t y)" by simp
  show ?case
  proof (cases "lo < hi")
    case False
    then have e: "hi = lo" using less.prems by simp
    have "buildTree t x lo hi = Some ?t1"
      using e by (subst buildTree.simps) (simp add: Let_def)
    moreover have "segInv ?t1 x lo hi"
      using e x z by (simp add: segInv_leaf kMod_pos)
    moreover have "\<forall>y. y \<notin> sub x \<longrightarrow> ?t1 y = t y" using sub_self by auto
    moreover have "\<forall>i. valAt ?t1 x lo hi i = 0" using e z by (simp add: valAt_leaf)
    ultimately show ?thesis using p1 by blast
  next
    case True
    let ?m = "(lo + hi) div 2"
    have m: "lo \<le> ?m" "?m < hi" using True by presburger+
    have eq: "buildTree t x lo hi =
        buildTree ?t1 (lson x) lo ?m \<bind> (\<lambda>t2. buildTree t2 (rson x) (?m + 1) hi)"
      using True by (subst buildTree.simps) (simp add: Let_def mid_eq)
    have "\<exists>t2. buildTree ?t1 (lson x) lo ?m = Some t2 \<and> segInv t2 (lson x) lo ?m \<and>
        (\<forall>y. y \<notin> sub (lson x) \<longrightarrow> t2 y = ?t1 y) \<and>
        (\<forall>y. n_tag (t2 y) = n_tag (?t1 y) \<and> n_sum (t2 y) = n_sum (?t1 y)) \<and>
        (\<forall>i. valAt t2 (lson x) lo ?m i = 0)"
    proof (rule less.hyps)
      show "nat (?m - lo) < nat (hi - lo)" using m by simp
      show "0 < lson x" using x by (simp add: lson_eq)
      show "lo \<le> ?m" by (rule m)
      show "\<And>y. y \<in> sub (lson x) \<Longrightarrow> n_tag (?t1 y) = 0 \<and> n_sum (?t1 y) = 0"
        using sc(4) less.prems(3) by simp
    qed
    then obtain t2 where t2: "buildTree ?t1 (lson x) lo ?m = Some t2" "segInv t2 (lson x) lo ?m"
      "\<And>y. y \<notin> sub (lson x) \<Longrightarrow> t2 y = ?t1 y"
      "\<And>y. n_tag (t2 y) = n_tag (?t1 y) \<and> n_sum (t2 y) = n_sum (?t1 y)"
      "\<And>i. valAt t2 (lson x) lo ?m i = 0"
      by blast
    have "\<exists>t3. buildTree t2 (rson x) (?m + 1) hi = Some t3 \<and> segInv t3 (rson x) (?m + 1) hi \<and>
        (\<forall>y. y \<notin> sub (rson x) \<longrightarrow> t3 y = t2 y) \<and>
        (\<forall>y. n_tag (t3 y) = n_tag (t2 y) \<and> n_sum (t3 y) = n_sum (t2 y)) \<and>
        (\<forall>i. valAt t3 (rson x) (?m + 1) hi i = 0)"
    proof (rule less.hyps)
      show "nat (hi - (?m + 1)) < nat (hi - lo)" using m by simp
      show "0 < rson x" by (simp add: rson_eq)
      show "?m + 1 \<le> hi" using m by simp
      show "\<And>y. y \<in> sub (rson x) \<Longrightarrow> n_tag (t2 y) = 0 \<and> n_sum (t2 y) = 0"
        using sc(5) less.prems(3) t2(4) by simp
    qed
    then obtain t3 where t3: "buildTree t2 (rson x) (?m + 1) hi = Some t3"
      "segInv t3 (rson x) (?m + 1) hi"
      "\<And>y. y \<notin> sub (rson x) \<Longrightarrow> t3 y = t2 y"
      "\<And>y. n_tag (t3 y) = n_tag (t2 y) \<and> n_sum (t3 y) = n_sum (t2 y)"
      "\<And>i. valAt t3 (rson x) (?m + 1) hi i = 0"
      by blast
    have r: "buildTree t x lo hi = Some t3" using eq t2(1) t3(1) by simp
    have p3: "\<And>y. n_tag (t3 y) = n_tag (t y) \<and> n_sum (t3 y) = n_sum (t y)"
      using t3(4) t2(4) p1 by simp
    have t3x: "t3 x = ?t1 x"
      using t2(3) [of x] t3(3) [of x] not_sub_lson [OF x] not_sub_rson [of x] by simp
    have l3: "\<And>y. y \<in> sub (lson x) \<Longrightarrow> t3 y = t2 y" using sc(4) t3(3) by blast
    have il: "segInv t3 (lson x) lo ?m"
      using segInv_cong [of "lson x" t3 t2, OF l3] t2(2) by simp
    have vl: "\<And>i. valAt t3 (lson x) lo ?m i = 0"
      using valAt_cong [of "lson x" t3 t2, OF l3] t2(5) by simp
    have ch: "lson x \<in> sub x" "rson x \<in> sub x"
      using sub_lson [of x] sub_rson [of x] sub_self [of "lson x"] sub_self [of "rson x"] by auto
    have zs: "n_sum (t3 (lson x)) = 0" "n_sum (t3 (rson x)) = 0"
      using p3 [of "lson x"] p3 [of "rson x"] less.prems(3) [OF ch(1)] less.prems(3) [OF ch(2)]
      by simp_all
    have "segInv t3 x lo hi"
      using True x il t3(2) t3x p3 [of x] z zs by (simp add: segInv_node)
    moreover have "\<forall>i. valAt t3 x lo hi i = 0"
      using True p3 [of x] z vl t3(5) by (simp add: valAt_node)
    moreover have "\<forall>y. y \<notin> sub x \<longrightarrow> t3 y = t y"
    proof (intro allI impI)
      fix y assume "y \<notin> sub x"
      then have "y \<noteq> x" "y \<notin> sub (lson x)" "y \<notin> sub (rson x)"
        using sub_self [of x] sub_lson [of x] sub_rson [of x] by auto
      then show "t3 y = t y" using t3(3) [of y] t2(3) [of y] by simp
    qed
    ultimately show ?thesis using r p3 by blast
  qed
qed

lemma queryRange_empty:
  assumes "segInv t x lo hi" "hi < l" "r \<le> hi"
  shows "\<exists>t'. queryRange t x l r = Some (t', 0)"
  using assms
proof (induction "nat (hi - lo)" arbitrary: t x lo hi rule: less_induct)
  case less
  have x: "0 < x" and f: "n_l (t x) = lo" "n_r (t x) = hi"
    using less.prems(1) segInv_fields by blast+
  let ?m = "(lo + hi) div 2"
  let ?t1 = "pushDown t x"
  have lh: "lo \<le> hi" using less.prems(1) segInv_le by blast
  have f1: "n_l (?t1 x) = lo" "n_r (?t1 x) = hi"
    using f by (simp_all add: pushDown_apply [OF x])
  have m: "lo \<le> ?m" "?m \<le> hi" using lh by presburger+
  have nc: "(l \<le> lo \<and> hi \<le> r) = False" "(l \<le> ?m) = False"
    using less.prems(2) lh m by simp_all
  have eq: "queryRange t x l r =
      (if ?m < r
       then queryRange ?t1 (rson x) l r \<bind> (\<lambda>(t', q). Some (t', (0 + q) smod kMod))
       else Some (?t1, 0))"
    using f f1 by (subst queryRange.simps) (simp add: Let_def mid_eq nc)
  show ?case
  proof (cases "?m < r")
    case False
    then show ?thesis using eq by simp
  next
    case True
    then have s: "lo < hi" using less.prems(3) m by presburger
    have "segInv ?t1 (rson x) (?m + 1) hi"
      using pushDown_segInv(1) [OF less.prems(1) s] s by (simp add: segInv_node)
    moreover have "nat (hi - (?m + 1)) < nat (hi - lo)" using s m by simp
    ultimately obtain t' where "queryRange ?t1 (rson x) l r = Some (t', 0)"
      using less.hyps [of hi "?m + 1" ?t1 "rson x"] less.prems(2,3) by blast
    then show ?thesis using eq True by simp
  qed
qed

lemma arr_range: "treeInv t m \<Longrightarrow> 0 \<le> arr t m i \<and> arr t m i < kMod"
  using valAt_range [of t 1 1 m i] by (simp add: treeInv_def arr_def kMod_pos)

lemma buildTree_root:
  assumes "1 \<le> m"
  shows "\<exists>t. buildTree tree0 1 1 m = Some t \<and> treeInv t m \<and> arr t m = (\<lambda>i. 0)"
proof -
  obtain t where "buildTree tree0 1 1 m = Some t" "segInv t 1 1 m" "\<forall>i. valAt t 1 1 m i = 0"
    using buildTree_correct [of 1 1 m tree0] assms by (auto simp: tree0_def)
  then show ?thesis by (auto simp: treeInv_def arr_def)
qed

lemma updatePoint_root:
  assumes "treeInv t m" "1 \<le> p" "p \<le> m" "0 \<le> v" "v < kMod"
  shows "\<exists>t'. updatePoint t 1 p v = Some t' \<and> treeInv t' m \<and> arr t' m = (arr t m)(p := v)"
proof -
  obtain t' where t': "updatePoint t 1 p v = Some t'" "segInv t' 1 1 m"
    "\<forall>i. 1 \<le> i \<and> i \<le> m \<longrightarrow> valAt t' 1 1 m i = (if i = p then v else valAt t 1 1 m i)"
    using updatePoint_correct [of t 1 1 m p v] assms unfolding treeInv_def by blast
  have "arr t' m = (arr t m)(p := v)"
    using t'(3) assms(2,3) by (auto simp: arr_def fun_eq_iff)
  then show ?thesis using t'(1,2) by (simp add: treeInv_def)
qed

lemma zeroRange_root:
  assumes "treeInv t m" "l \<le> m" "1 \<le> r"
  shows "\<exists>t'. zeroRange t 1 l r = Some t' \<and> treeInv t' m \<and>
      arr t' m = (\<lambda>i. if l \<le> i \<and> i \<le> r then 0 else arr t m i)"
proof -
  obtain t' where t': "zeroRange t 1 l r = Some t'" "segInv t' 1 1 m"
    "\<forall>i. 1 \<le> i \<and> i \<le> m \<longrightarrow>
       valAt t' 1 1 m i = (if l \<le> i \<and> i \<le> r then 0 else valAt t 1 1 m i)"
    using zeroRange_correct [of t 1 1 m l r] assms unfolding treeInv_def by blast
  have "arr t' m = (\<lambda>i. if l \<le> i \<and> i \<le> r then 0 else arr t m i)"
    using t'(3) by (auto simp: arr_def fun_eq_iff)
  then show ?thesis using t'(1,2) by (simp add: treeInv_def)
qed

lemma queryRange_root:
  assumes "treeInv t m" "1 \<le> l" "l \<le> r" "r \<le> m"
  shows "\<exists>t'. queryRange t 1 l r = Some (t', (\<Sum>i = l..r. arr t m i) mod kMod) \<and>
      treeInv t' m \<and> arr t' m = arr t m"
proof -
  obtain t' s where t': "queryRange t 1 l r = Some (t', s)" "segInv t' 1 1 m"
    "\<forall>i. valAt t' 1 1 m i = valAt t 1 1 m i"
    "s = (\<Sum>i = max l 1..min r m. valAt t 1 1 m i) mod kMod"
    using queryRange_correct [of t 1 1 m l r] assms unfolding treeInv_def by auto
  have "max l 1 = l" "min r m = r" using assms by simp_all
  moreover have "(\<Sum>i = l..r. valAt t 1 1 m i) = (\<Sum>i = l..r. arr t m i)"
    using assms by (intro sum.cong) (auto simp: arr_def)
  ultimately have "s = (\<Sum>i = l..r. arr t m i) mod kMod" using t'(4) by simp
  moreover have "arr t' m = arr t m" using t'(3) by (auto simp: arr_def fun_eq_iff)
  ultimately show ?thesis using t'(1,2) by (simp add: treeInv_def)
qed

lemma queryRange_tail:
  assumes "treeInv t m" "1 \<le> l"
  shows "\<exists>t'. queryRange t 1 l m = Some (t', (\<Sum>i = l..m. arr t m i) mod kMod)"
proof (cases "l \<le> m")
  case True
  then show ?thesis using queryRange_root [OF assms True] by blast
next
  case False
  then have "(\<Sum>i = l..m. arr t m i) = 0" by simp
  then show ?thesis
    using queryRange_empty [of t 1 1 m l m] assms(1) False by (simp add: treeInv_def)
qed

section \<open>The tree refines the array\<close>

lemma applyOp_refines:
  assumes "treeInv t m" "validOp m b"
  shows "\<exists>t'. applyOp t b = Some (t', snd (arrayOp (arr t m) b)) \<and> treeInv t' m \<and>
      arr t' m = fst (arrayOp (arr t m) b)"
proof (cases b)
  case (PointSet p v)
  then show ?thesis using updatePoint_root [of t m p v] assms by auto
next
  case (ZeroAssign l r)
  then show ?thesis using zeroRange_root [of t m l r] assms by auto
next
  case (RangeSum l r)
  then show ?thesis using queryRange_root [of t m l r] assms by auto
qed

lemma runOps_refines:
  assumes "treeInv t m" "list_all (validOp m) ops"
  shows "\<exists>t'. runOps t ops = Some (t', snd (arrayRun (arr t m) ops)) \<and> treeInv t' m \<and>
      arr t' m = fst (arrayRun (arr t m) ops)"
  using assms
proof (induction ops arbitrary: t)
  case Nil
  then show ?case by simp
next
  case (Cons b bs)
  obtain t1 where t1: "applyOp t b = Some (t1, snd (arrayOp (arr t m) b))" "treeInv t1 m"
    "arr t1 m = fst (arrayOp (arr t m) b)"
    using applyOp_refines [of t m b] Cons.prems by auto
  obtain t2 where t2: "runOps t1 bs = Some (t2, snd (arrayRun (arr t1 m) bs))" "treeInv t2 m"
    "arr t2 m = fst (arrayRun (arr t1 m) bs)"
    using Cons.IH [OF t1(2)] Cons.prems(2) by auto
  show ?case using t1 t2 by (simp add: case_prod_unfold Let_def)
qed

lemma runFromBuild_refines:
  assumes "1 \<le> m" "list_all (validOp m) ops"
  shows "\<exists>t'. runFromBuild m ops = Some (t', snd (arrayRun (\<lambda>i. 0) ops)) \<and> treeInv t' m \<and>
      arr t' m = fst (arrayRun (\<lambda>i. 0) ops)"
proof -
  obtain t where t: "buildTree tree0 1 1 m = Some t" "treeInv t m" "arr t m = (\<lambda>i. 0)"
    using buildTree_root [OF assms(1)] by blast
  show ?thesis using runOps_refines [OF t(2) assms(2)] t(1,3) by (simp add: runFromBuild_def)
qed

lemma arrayOp_keeps: "keeps p b \<Longrightarrow> fst (arrayOp a b) p = a p"
  by (cases b) auto

lemma arrayRun_keeps: "list_all (keeps p) bs \<Longrightarrow> fst (arrayRun a bs) p = a p"
  by (induction bs arbitrary: a) (auto simp: case_prod_unfold Let_def arrayOp_keeps)

lemma arrayRun_no_output:
  "snd (arrayRun a (map (\<lambda>(p, v). PointSet p v) ps)) = []"
  by (induction ps arbitrary: a) (auto simp: case_prod_unfold Let_def)

text \<open>
  Claim C10. Started from \<open>buildTree\<close>, any sequence of valid calls makes the queries of
  the segment tree return exactly what the abstract array returns:
  \<open>pointSet\<close> is \<open>a[p] := v\<close>, \<open>zeroAssign\<close> zeroes \<open>a[l..r]\<close>, \<open>rangeSum\<close> is the sum modulo
  \<open>kMod\<close>. The sequences include those where \<open>updatePoint\<close> writes a leaf that still
  carries a zero tag (the witness below is one): the tag is never observed.
\<close>
theorem tree_refines_array:
  assumes "1 \<le> m" "list_all (validOp m) ops"
  shows "map_option snd (runFromBuild m ops) = Some (snd (arrayRun (\<lambda>i. 0) ops))"
  using runFromBuild_refines [OF assms] by auto

theorem tree_refines_array_witness:
  "(1::int) \<le> 2 \<and>
   list_all (validOp 2) [ZeroAssign 1 2, PointSet 1 5, RangeSum 1 1, RangeSum 1 2, RangeSum 2 2] \<and>
   map_option snd
     (runFromBuild 2 [ZeroAssign 1 2, PointSet 1 5, RangeSum 1 1, RangeSum 1 2, RangeSum 2 2]) =
   Some [5, 5, 0]"
  using tree_refines_array [of 2 "[ZeroAssign 1 2, PointSet 1 5, RangeSum 1 1, RangeSum 1 2, RangeSum 2 2]"]
  by (simp add: kMod_def)

text \<open>
  Claim C6. In every state reached from \<open>buildTree\<close> by valid calls, for every range
  \<open>[l, r]\<close> inside \<open>[1, mCols]\<close>: after \<open>zeroRange(l, r)\<close> the query \<open>queryRange(l, r)\<close>
  returns 0, and it returns 0 again after any list of \<open>updatePoint\<close> calls at positions
  of \<open>[1, mCols]\<close> outside \<open>[l, r]\<close> (with residues as values).
\<close>
theorem zero_then_sum:
  assumes "1 \<le> m" "list_all (validOp m) pre" "1 \<le> l" "l \<le> r" "r \<le> m"
    and "list_all (\<lambda>(p, v). 1 \<le> p \<and> p \<le> m \<and> \<not> (l \<le> p \<and> p \<le> r) \<and> 0 \<le> v \<and> v < kMod) ps"
  shows "\<exists>t0 out0 t1 t2 t3 t4.
      runFromBuild m pre = Some (t0, out0) \<and>
      zeroRange t0 1 l r = Some t1 \<and>
      queryRange t1 1 l r = Some (t2, 0) \<and>
      runOps t2 (map (\<lambda>(p, v). PointSet p v) ps) = Some (t3, []) \<and>
      queryRange t3 1 l r = Some (t4, 0)"
proof -
  let ?ops = "map (\<lambda>(p, v). PointSet p v) ps"
  obtain t0 where t0: "runFromBuild m pre = Some (t0, snd (arrayRun (\<lambda>i. 0) pre))" "treeInv t0 m"
    using runFromBuild_refines [OF assms(1,2)] by blast
  obtain t1 where t1: "zeroRange t0 1 l r = Some t1" "treeInv t1 m"
    "arr t1 m = (\<lambda>i. if l \<le> i \<and> i \<le> r then 0 else arr t0 m i)"
    using zeroRange_root [of t0 m l r] t0(2) assms by auto
  have z1: "(\<Sum>i = l..r. arr t1 m i) = 0" using t1(3) by simp
  obtain t2 where t2: "queryRange t1 1 l r = Some (t2, 0)" "treeInv t2 m" "arr t2 m = arr t1 m"
    using queryRange_root [OF t1(2) assms(3,4,5)] z1 by auto
  have v: "list_all (validOp m) ?ops" using assms(6) by (induction ps) auto
  obtain t3 where t3: "runOps t2 ?ops = Some (t3, [])" "treeInv t3 m"
    "arr t3 m = fst (arrayRun (arr t2 m) ?ops)"
    using runOps_refines [OF t2(2) v] arrayRun_no_output by auto
  have "\<And>i. l \<le> i \<and> i \<le> r \<Longrightarrow> arr t3 m i = 0"
  proof -
    fix i assume i: "l \<le> i \<and> i \<le> r"
    have "list_all (keeps i) ?ops" using assms(6) i by (induction ps) auto
    then show "arr t3 m i = 0" using arrayRun_keeps [of i ?ops "arr t2 m"] t3(3) t2(3) t1(3) i by simp
  qed
  then have z3: "(\<Sum>i = l..r. arr t3 m i) = 0" by simp
  obtain t4 where "queryRange t3 1 l r = Some (t4, 0)"
    using queryRange_root [OF t3(2) assms(3,4,5)] z3 by auto
  then show ?thesis using t0(1) t1(1) t2(1) t3(1) by blast
qed

theorem zero_then_sum_witness:
  "(1::int) \<le> 3 \<and> list_all (validOp 3) [PointSet 2 7, PointSet 3 9] \<and> (1::int) \<le> 2 \<and> (2::int) \<le> 3 \<and>
   (3::int) \<le> 3 \<and>
   list_all (\<lambda>(p, v). 1 \<le> p \<and> p \<le> 3 \<and> \<not> (2 \<le> p \<and> p \<le> 3) \<and> 0 \<le> v \<and> v < kMod) [(1::int, 5::int), (1, 6)] \<and>
   (\<exists>t0 out0 t1 t2 t3 t4.
      runFromBuild 3 [PointSet 2 7, PointSet 3 9] = Some (t0, out0) \<and>
      zeroRange t0 1 2 3 = Some t1 \<and>
      queryRange t1 1 2 3 = Some (t2, 0) \<and>
      runOps t2 (map (\<lambda>(p, v). PointSet p v) [(1::int, 5::int), (1, 6)]) = Some (t3, []) \<and>
      queryRange t3 1 2 3 = Some (t4, 0))"
  using zero_then_sum [of 3 "[PointSet 2 7, PointSet 3 9]" 2 3 "[(1, 5), (1, 6)]"]
  by (simp add: kMod_def)


text \<open>
  Claim C8, amended. \<open>updatePoint\<close> stores the value as it is, unreduced. For a residue
  \<open>0 \<le> v < kMod\<close>, in every state reached from \<open>buildTree\<close> by valid calls \<open>pre\<close> and for
  every position \<open>p\<close> in \<open>[1, mCols]\<close>: after \<open>updatePoint(p, v)\<close>, any further valid calls
  \<open>ops\<close> none of which writes \<open>p\<close> (no \<open>updatePoint\<close> at \<open>p\<close>, no \<open>zeroRange\<close> covering \<open>p\<close>)
  return in their queries exactly what the abstract array with \<open>a[p] = v\<close> returns, that
  array holds \<open>v\<close> at \<open>p\<close> after every prefix of \<open>ops\<close>, and \<open>queryRange(p, p)\<close> at the end
  returns \<open>v\<close>.
\<close>
theorem pointSet_then_sum:
  assumes "1 \<le> m" "list_all (validOp m) pre" "1 \<le> p" "p \<le> m" "0 \<le> v" "v < kMod"
    and "list_all (validOp m) ops" "list_all (keeps p) ops"
  shows "\<exists>t0 out0 t1 t2 t3.
      runFromBuild m pre = Some (t0, out0) \<and>
      updatePoint t0 1 p v = Some t1 \<and>
      runOps t1 ops = Some (t2, snd (arrayRun ((fst (arrayRun (\<lambda>i. 0) pre))(p := v)) ops)) \<and>
      (\<forall>k. fst (arrayRun ((fst (arrayRun (\<lambda>i. 0) pre))(p := v)) (take k ops)) p = v) \<and>
      queryRange t2 1 p p = Some (t3, v)"
proof -
  let ?a = "(fst (arrayRun (\<lambda>i. 0) pre))(p := v)"
  obtain t0 where t0: "runFromBuild m pre = Some (t0, snd (arrayRun (\<lambda>i. 0) pre))" "treeInv t0 m"
    "arr t0 m = fst (arrayRun (\<lambda>i. 0) pre)"
    using runFromBuild_refines [OF assms(1,2)] by blast
  obtain t1 where t1: "updatePoint t0 1 p v = Some t1" "treeInv t1 m" "arr t1 m = (arr t0 m)(p := v)"
    using updatePoint_root [OF t0(2) assms(3-6)] by blast
  have a: "arr t1 m = ?a" using t1(3) t0(3) by simp
  obtain t2 where t2: "runOps t1 ops = Some (t2, snd (arrayRun ?a ops))" "treeInv t2 m"
    "arr t2 m = fst (arrayRun ?a ops)"
    using runOps_refines [OF t1(2) assms(7)] a by auto
  have k: "\<forall>k. fst (arrayRun ?a (take k ops)) p = v"
  proof
    fix k
    have "list_all (keeps p) (take k ops)"
      using assms(8) set_take_subset [of k ops] by (auto simp: list_all_iff)
    then show "fst (arrayRun ?a (take k ops)) p = v"
      using arrayRun_keeps [of p "take k ops" ?a] by simp
  qed
  have "arr t2 m p = v"
    using arrayRun_keeps [OF assms(8), of ?a] t2(3) by simp
  then have "(\<Sum>i = p..p. arr t2 m i) mod kMod = v"
    using assms(5,6) by (simp add: mod_pos_pos_trivial)
  then obtain t3 where "queryRange t2 1 p p = Some (t3, v)"
    using queryRange_root [OF t2(2) assms(3) order_refl assms(4)] by auto
  then show ?thesis using t0(1) t1(1) t2(1) k by blast
qed

theorem pointSet_then_sum_witness:
  "(1::int) \<le> 3 \<and> list_all (validOp 3) [ZeroAssign 1 3] \<and> (1::int) \<le> 2 \<and> (2::int) \<le> 3 \<and>
   (0::int) \<le> 7 \<and> 7 < kMod \<and>
   list_all (validOp 3) [PointSet 1 4, ZeroAssign 3 3, RangeSum 1 3, RangeSum 1 2, RangeSum 2 2] \<and>
   list_all (keeps 2) [PointSet 1 4, ZeroAssign 3 3, RangeSum 1 3, RangeSum 1 2, RangeSum 2 2] \<and>
   (\<exists>t0 out0 t1 t2 t3.
      runFromBuild 3 [ZeroAssign 1 3] = Some (t0, out0) \<and>
      updatePoint t0 1 2 7 = Some t1 \<and>
      runOps t1 [PointSet 1 4, ZeroAssign 3 3, RangeSum 1 3, RangeSum 1 2, RangeSum 2 2] =
        Some (t2, [11, 11, 7]) \<and>
      queryRange t2 1 2 2 = Some (t3, 7))"
proof -
  have e: "snd (arrayRun ((fst (arrayRun (\<lambda>i. 0) [ZeroAssign 1 3]))(2 := 7))
      [PointSet 1 4, ZeroAssign 3 3, RangeSum 1 3, RangeSum 1 2, RangeSum 2 2]) = [11, 11, 7]"
    by code_simp
  have h: "(1::int) \<le> 3" "list_all (validOp 3) [ZeroAssign 1 3]" "(1::int) \<le> 2" "(2::int) \<le> 3"
    "(0::int) \<le> 7" "7 < kMod"
    "list_all (validOp 3) [PointSet 1 4, ZeroAssign 3 3, RangeSum 1 3, RangeSum 1 2, RangeSum 2 2]"
    "list_all (keeps 2) [PointSet 1 4, ZeroAssign 3 3, RangeSum 1 3, RangeSum 1 2, RangeSum 2 2]"
    by (simp_all add: kMod_def)
  show ?thesis
    using pointSet_then_sum [OF h] h unfolding e by blast
qed

text \<open>
  The claim as stated fails for a value that is not a residue: on the tree over one
  column, \<open>updatePoint(1, 1000000012)\<close> followed by \<open>queryRange(1, 1)\<close> returns
  \<open>1000000012\<close>, not \<open>1000000012 mod kMod = 5\<close>.
\<close>

theorem pointSet_mod_counterexample:
  "map_option snd (runFromBuild 1 [PointSet 1 1000000012, RangeSum 1 1]) = Some [1000000012] \<and>
   (1000000012 :: int) mod kMod = 5"
  by code_simp

section \<open>The sweep\<close>

lemma readRects_buckets:
  "readRects rs (A, D) =
     (\<lambda>i. A i @ map rcols (filter (\<lambda>r. rx1 r = i) rs),
      \<lambda>i. D i @ map rcols (filter (\<lambda>r. rx2 r + 1 = i) rs))"
proof (induction rs arbitrary: A D)
  case Nil
  then show ?case by simp
next
  case (Cons r rs)
  obtain x1 y1 x2 y2 where r: "r = (x1, y1, x2, y2)" by (cases r) auto
  show ?case unfolding r by (simp add: Cons.IH rcols_def fun_eq_iff)
qed

lemma addRangesOf_eq: "addRangesOf rects i = map rcols (filter (\<lambda>r. rx1 r = i) rects)"
  by (simp add: addRangesOf_def readRects_buckets)

lemma delRangesOf_eq: "delRangesOf rects i = map rcols (filter (\<lambda>r. rx2 r + 1 = i) rects)"
  by (simp add: delRangesOf_def readRects_buckets)

lemma eraseAll_eq: "eraseAll S ps = S - set ps"
  by (induction ps arbitrary: S) auto

lemma fold_insert_eq: "fold insert xs S = set xs \<union> S"
  by (induction xs arbitrary: S) auto

lemma sort_mset_cong: "mset xs = mset ys \<Longrightarrow> sort xs = sort (ys :: (int \<times> int) list)"
  by (rule properties_for_sort) simp_all

lemma sortDesc_mset_cong: "mset xs = mset ys \<Longrightarrow> sortDesc xs = sortDesc ys"
  using sort_mset_cong [of xs ys] by (simp add: sortDesc_def)

lemma set_sortDesc: "set (sortDesc xs) = set xs"
  by (simp add: sortDesc_def)

lemma sweepWith_append:
  "sweepWith order m A D st (xs @ ys) =
     sweepWith order m A D st xs \<bind> (\<lambda>s. sweepWith order m A D s ys)"
  by (induction xs arbitrary: st) (simp_all)

lemma stateAfterWith_alt:
  "stateAfterWith order m rects i =
     initState m (addRangesOf rects) \<bind>
       (\<lambda>st. sweepWith order m (addRangesOf rects) (delRangesOf rects) st [2..i])"
  by (simp add: stateAfterWith_def addRangesOf_def delRangesOf_def case_prod_unfold Let_def)

lemma stateAfterWith_1:
  "stateAfterWith order m rects 1 = initState m (addRangesOf rects)"
  by (simp add: stateAfterWith_alt)

lemma stateAfterWith_step:
  assumes "1 \<le> i"
  shows "stateAfterWith order m rects (i + 1) =
     stateAfterWith order m rects i \<bind>
       (\<lambda>st. rowStepWith order m (addRangesOf rects) (delRangesOf rects) st (i + 1))"
proof -
  have "[2..i + 1] = [2..i] @ [i + 1]" using assms upto_rec2 [of 2 "i + 1"] by simp
  then show ?thesis by (simp add: stateAfterWith_alt sweepWith_append)
qed

lemma rowStepWith_cong:
  assumes "order (A' i) = order (A i)" "set (D' i) = set (D i)"
  shows "rowStepWith order m A' D' st i = rowStepWith order m A D st i"
  using assms by (simp add: rowStepWith_def eraseAll_eq)

lemma sweepWith_cong:
  assumes "\<And>i. order (A' i) = order (A i)" "\<And>i. set (D' i) = set (D i)"
  shows "sweepWith order m A' D' st is = sweepWith order m A D st is"
  by (induction "is" arbitrary: st) (simp_all add: rowStepWith_cong [of order A' _ A D' D] assms)

lemma initState_cong:
  assumes "set (A' 1) = set (A 1)"
  shows "initState m A' = initState m A"
  using assms by (simp add: initState_def fold_insert_eq)

lemma solveWith_perm:
  assumes "mset rects' = mset rects"
  shows "solveWith sortDesc n m rects' = solveWith sortDesc n m rects"
proof -
  have a: "\<And>i. mset (addRangesOf rects' i) = mset (addRangesOf rects i)"
    using assms by (simp add: addRangesOf_eq)
  have d: "\<And>i. mset (delRangesOf rects' i) = mset (delRangesOf rects i)"
    using assms by (simp add: delRangesOf_eq)
  have a': "\<And>i. sortDesc (addRangesOf rects' i) = sortDesc (addRangesOf rects i)"
    using a by (rule sortDesc_mset_cong)
  have d': "\<And>i. set (delRangesOf rects' i) = set (delRangesOf rects i)"
    using d by (rule mset_eq_setD)
  have "set (addRangesOf rects' 1) = set (addRangesOf rects 1)"
    using a by (rule mset_eq_setD)
  then have i: "initState m (addRangesOf rects') = initState m (addRangesOf rects)"
    by (rule initState_cong)
  show ?thesis
    by (simp add: solveWith_def stateAfterWith_alt i
        sweepWith_cong [of sortDesc "addRangesOf rects'" "addRangesOf rects", OF a' d'])
qed

lemma lowerBoundPrev_correct:
  assumes "finite S" "(0, 0) \<in> S" "\<And>p. p \<in> S \<Longrightarrow> 0 \<le> snd p" "0 \<le> b"
  shows "\<exists>p. lowerBoundPrev S (b + 1, 0) = Some p \<and> p \<in> S \<and> fst p \<le> b \<and>
      (\<forall>q\<in>S. fst q \<le> b \<longrightarrow> q \<le> p)"
proof -
  let ?F = "{p \<in> S. p < (b + 1, 0)}"
  have lt: "\<And>p. p \<in> S \<Longrightarrow> p < (b + 1, 0) \<longleftrightarrow> fst p \<le> b"
  proof -
    fix p assume "p \<in> S"
    then have "0 \<le> snd p" by (rule assms(3))
    then show "p < (b + 1, 0) \<longleftrightarrow> fst p \<le> b"
      by (cases p) (auto simp: less_prod_def')
  qed
  have "(0, 0) \<in> ?F" using assms(2,4) lt [of "(0, 0)"] by simp
  then have ne: "?F \<noteq> {}" by blast
  have fin: "finite ?F" using assms(1) by simp
  have m: "Max ?F \<in> ?F" using Max_in [OF fin ne] .
  have g: "\<And>q. q \<in> ?F \<Longrightarrow> q \<le> Max ?F" using Max_ge [OF fin] by blast
  have "lowerBoundPrev S (b + 1, 0) = Some (Max ?F)" using ne by (simp add: lowerBoundPrev_def)
  moreover have ms: "Max ?F \<in> S" using m by simp
  moreover have "fst (Max ?F) \<le> b" using m lt [OF ms] by simp
  moreover have "\<forall>q\<in>S. fst q \<le> b \<longrightarrow> q \<le> Max ?F"
  proof (intro ballI impI)
    fix q assume "q \<in> S" "fst q \<le> b"
    then have "q \<in> ?F" using lt [of q] by simp
    then show "q \<le> Max ?F" by (rule g)
  qed
  ultimately show ?thesis by blast
qed

lemma kMod_gt1: "1 < kMod"
  by (simp add: kMod_def)

lemma boundary_array:
  assumes "treeInv t m" "finite S" "(0, 0) \<in> S" "\<And>q. q \<in> S \<Longrightarrow> segOk m q"
    and "1 \<le> fst p" "fst p \<le> snd p" "snd p < m"
  shows "\<exists>t' pr. boundary m S t p = Some t' \<and> treeInv t' m \<and> pr \<in> S \<and>
      (\<forall>q\<in>S. fst q \<le> snd p + 1 \<longrightarrow> q \<le> pr) \<and>
      arr t' m = (arr t m)(snd p + 1 :=
        (if snd pr \<le> snd p then (\<Sum>i = snd pr + 1..snd p + 1. arr t m i) mod kMod else 0))"
proof -
  let ?y = "snd p"
  have nn: "\<And>q. q \<in> S \<Longrightarrow> 0 \<le> snd q" using assms(4) by (fastforce simp: segOk_def)
  have y: "0 \<le> ?y + 1" using assms(5,6) by simp
  obtain pr where pr: "lowerBoundPrev S (?y + 1 + 1, 0) = Some pr" "pr \<in> S" "fst pr \<le> ?y + 1"
    "\<forall>q\<in>S. fst q \<le> ?y + 1 \<longrightarrow> q \<le> pr"
    using lowerBoundPrev_correct [OF assms(2,3) nn y] by blast
  have k: "?y + 2 = ?y + 1 + 1" by simp
  have ne: "?y \<noteq> m" using assms(7) by simp
  have eq: "boundary m S t p =
      (if snd pr \<le> ?y then queryRange t 1 (snd pr + 1) (?y + 1) else Some (t, 0)) \<bind>
      (\<lambda>(t1, ans). updatePoint t1 1 (?y + 1) ans)"
    using pr(1) ne by (simp add: boundary_def Let_def k)
  let ?ans = "if snd pr \<le> ?y then (\<Sum>i = snd pr + 1..?y + 1. arr t m i) mod kMod else 0"
  have "\<exists>t1. (if snd pr \<le> ?y then queryRange t 1 (snd pr + 1) (?y + 1) else Some (t, 0)) =
      Some (t1, ?ans) \<and> treeInv t1 m \<and> arr t1 m = arr t m"
  proof (cases "snd pr \<le> ?y")
    case True
    have "1 \<le> snd pr + 1" using nn [OF pr(2)] by simp
    moreover have "snd pr + 1 \<le> ?y + 1" using True by simp
    moreover have "?y + 1 \<le> m" using assms(7) by simp
    ultimately show ?thesis using queryRange_root [OF assms(1)] True by auto
  next
    case False
    then show ?thesis using assms(1) by simp
  qed
  then obtain t1 where t1: "(if snd pr \<le> ?y then queryRange t 1 (snd pr + 1) (?y + 1) else Some (t, 0)) =
      Some (t1, ?ans)" "treeInv t1 m" "arr t1 m = arr t m"
    by blast
  have a: "0 \<le> ?ans" "?ans < kMod" using kMod_pos by simp_all
  have "1 \<le> ?y + 1" "?y + 1 \<le> m" using assms(5,6,7) by simp_all
  then obtain t' where t': "updatePoint t1 1 (?y + 1) ?ans = Some t'" "treeInv t' m"
    "arr t' m = (arr t1 m)(?y + 1 := ?ans)"
    using updatePoint_root [OF t1(2) _ _ a] by blast
  have "boundary m S t p = Some t'" unfolding eq t1(1) using t'(1) by simp
  moreover have "arr t' m = (arr t m)(?y + 1 := ?ans)" using t'(3) t1(3) by simp
  ultimately show ?thesis using t'(2) pr(2,4) by blast
qed

lemma le_prod_fst: "(q :: int \<times> int) \<le> p \<Longrightarrow> fst q \<le> fst p"
  by (cases q; cases p) (auto simp: less_eq_prod_def)

lemma boundary_good:
  assumes "good m (t, S)" "1 \<le> fst p" "fst p \<le> snd p" "snd p \<le> m"
  shows "\<exists>t'. boundary m S t p = Some t' \<and> good m (t', S) \<and> arr t' m 1 = arr t m 1"
proof (cases "snd p = m")
  case True
  then show ?thesis using assms(1) by (simp add: boundary_def Let_def)
next
  case False
  let ?y = "snd p"
  have g: "treeInv t m" "finite S" "(0, 0) \<in> S" "\<And>q. q \<in> S \<Longrightarrow> segOk m q" "zeroCover t m S"
    using assms(1) by (simp_all add: good_def)
  have lt: "?y < m" using False assms(4) by simp
  obtain t' pr where b: "boundary m S t p = Some t'" "treeInv t' m" "pr \<in> S"
    "\<forall>q\<in>S. fst q \<le> ?y + 1 \<longrightarrow> q \<le> pr"
    "arr t' m = (arr t m)(?y + 1 :=
        (if snd pr \<le> ?y then (\<Sum>i = snd pr + 1..?y + 1. arr t m i) mod kMod else 0))"
    using boundary_array [OF g(1-4) assms(2,3) lt] by blast
  have prok: "fst pr \<le> snd pr" using g(4) [OF b(3)] by (auto simp: segOk_def)
  have "zeroCover t' m S"
    unfolding zeroCover_def
  proof (intro ballI allI impI)
    fix q c assume q: "q \<in> S" and c: "fst q \<le> c \<and> c \<le> snd q \<and> c \<noteq> 1"
    have old: "arr t m c = 0" using g(5) q c by (simp add: zeroCover_def)
    show "arr t' m c = 0"
    proof (cases "c = ?y + 1")
      case False
      then show ?thesis using b(5) old by simp
    next
      case True
      have "q \<le> pr" using b(4) q c True by simp
      then have fq: "fst q \<le> fst pr" by (rule le_prod_fst)
      have qne: "q \<noteq> (0, 0)" using c True assms(2,3) by auto
      then have q1: "1 \<le> fst q" using g(4) [OF q] by (simp add: segOk_def)
      have "(\<Sum>i = snd pr + 1..?y + 1. arr t m i) = 0"
      proof (rule sum.neutral, intro ballI)
        fix i assume "i \<in> {snd pr + 1..?y + 1}"
        then have "fst q \<le> i \<and> i \<le> snd q \<and> i \<noteq> 1" using fq prok q1 c True by auto
        then show "arr t m i = 0" using g(5) q by (simp add: zeroCover_def)
      qed
      then show ?thesis using b(5) True by simp
    qed
  qed
  then have "good m (t', S)" using b(2) g(2,3,4) by (simp add: good_def)
  moreover have "arr t' m 1 = arr t m 1" using b(5) assms(2,3) by simp
  ultimately show ?thesis using b(1) by blast
qed

lemma boundaries_good:
  assumes "good m (t, S)" "\<And>p. p \<in> set ps \<Longrightarrow> 1 \<le> fst p \<and> fst p \<le> snd p \<and> snd p \<le> m"
  shows "\<exists>t'. boundaries m S t ps = Some t' \<and> good m (t', S) \<and> arr t' m 1 = arr t m 1"
  using assms
proof (induction ps arbitrary: t)
  case Nil
  then show ?case by simp
next
  case (Cons p ps)
  have p: "1 \<le> fst p" "fst p \<le> snd p" "snd p \<le> m" using Cons.prems(2) [of p] by simp_all
  obtain t1 where t1: "boundary m S t p = Some t1" "good m (t1, S)" "arr t1 m 1 = arr t m 1"
    using boundary_good [OF Cons.prems(1) p] by blast
  obtain t' where "boundaries m S t1 ps = Some t'" "good m (t', S)" "arr t' m 1 = arr t1 m 1"
    using Cons.IH [OF t1(2)] Cons.prems(2) by auto
  then show ?case using t1 by simp
qed

lemma activate_array:
  assumes "treeInv t m" "\<And>p. p \<in> set ps \<Longrightarrow> 1 \<le> fst p \<and> fst p \<le> snd p \<and> snd p \<le> m"
  shows "\<exists>t'. activate (t, S) ps = Some (t', S \<union> set ps) \<and> treeInv t' m \<and>
      arr t' m = (\<lambda>c. if \<exists>p\<in>set ps. fst p \<le> c \<and> c \<le> snd p then 0 else arr t m c)"
  using assms
proof (induction ps arbitrary: t S)
  case Nil
  then show ?case by simp
next
  case (Cons p ps)
  have p: "fst p \<le> m" "1 \<le> snd p" using Cons.prems(2) [of p] by simp_all
  obtain t1 where t1: "zeroRange t 1 (fst p) (snd p) = Some t1" "treeInv t1 m"
    "arr t1 m = (\<lambda>i. if fst p \<le> i \<and> i \<le> snd p then 0 else arr t m i)"
    using zeroRange_root [OF Cons.prems(1) p] by blast
  obtain t' where t': "activate (t1, insert p S) ps = Some (t', insert p S \<union> set ps)" "treeInv t' m"
    "arr t' m = (\<lambda>c. if \<exists>p\<in>set ps. fst p \<le> c \<and> c \<le> snd p then 0 else arr t1 m c)"
    using Cons.IH [where S = "insert p S", OF t1(2)] Cons.prems(2) by auto
  have "arr t' m = (\<lambda>c. if \<exists>q\<in>set (p # ps). fst q \<le> c \<and> c \<le> snd q then 0 else arr t m c)"
    unfolding t'(3) t1(3) by (auto simp: fun_eq_iff)
  then show ?case using t1(1) t'(1,2) by simp
qed

lemma rowStep_good:
  assumes "good m (t, S)"
    and "\<And>p. p \<in> set (A i) \<Longrightarrow> 1 \<le> fst p \<and> fst p \<le> snd p \<and> snd p \<le> m"
    and "set (order (A i)) = set (A i)" "(0, 0) \<notin> set (D i)"
  shows "\<exists>t'. rowStepWith order m A D (t, S) i = Some (t', (S - set (D i)) \<union> set (A i)) \<and>
      good m (t', (S - set (D i)) \<union> set (A i)) \<and>
      (arr t m 1 = 0 \<longrightarrow> arr t' m 1 = 0) \<and>
      ((\<exists>p\<in>set (A i). fst p = 1) \<longrightarrow> arr t' m 1 = 0)"
proof -
  let ?S' = "(S - set (D i)) \<union> set (A i)"
  have v: "\<And>p. p \<in> set (order (A i)) \<Longrightarrow> 1 \<le> fst p \<and> fst p \<le> snd p \<and> snd p \<le> m"
    using assms(2,3) by simp
  obtain t1 where t1: "boundaries m S t (order (A i)) = Some t1" "good m (t1, S)"
    "arr t1 m 1 = arr t m 1"
    using boundaries_good [where ps = "order (A i)", OF assms(1) v] by blast
  have g: "treeInv t1 m" "finite S" "(0, 0) \<in> S" "\<And>q. q \<in> S \<Longrightarrow> segOk m q" "zeroCover t1 m S"
    using t1(2) by (simp_all add: good_def)
  obtain t' where t': "activate (t1, S - set (D i)) (order (A i)) = Some (t', ?S')" "treeInv t' m"
    "arr t' m = (\<lambda>c. if \<exists>p\<in>set (A i). fst p \<le> c \<and> c \<le> snd p then 0 else arr t1 m c)"
    using activate_array [where S = "S - set (D i)" and ps = "order (A i)", OF g(1) v] assms(3) by auto
  have r: "rowStepWith order m A D (t, S) i = Some (t', ?S')"
    using t1(1) t'(1) by (simp add: rowStepWith_def eraseAll_eq)
  have "zeroCover t' m ?S'"
    unfolding zeroCover_def
  proof (intro ballI allI impI)
    fix q c assume q: "q \<in> ?S'" and c: "fst q \<le> c \<and> c \<le> snd q \<and> c \<noteq> 1"
    show "arr t' m c = 0"
    proof (cases "q \<in> set (A i)")
      case True
      then show ?thesis using t'(3) c by auto
    next
      case False
      then have "q \<in> S" using q by simp
      then have "arr t1 m c = 0" using g(5) c by (simp add: zeroCover_def)
      then show ?thesis using t'(3) by simp
    qed
  qed
  moreover have "\<forall>p\<in>?S'. segOk m p" using g(4) assms(2) by (auto simp: segOk_def)
  ultimately have "good m (t', ?S')"
    using t'(2) g(2,3) assms(4) by (simp add: good_def)
  moreover have "arr t m 1 = 0 \<longrightarrow> arr t' m 1 = 0" using t'(3) t1(3) by simp
  moreover have "(\<exists>p\<in>set (A i). fst p = 1) \<longrightarrow> arr t' m 1 = 0"
    using t'(3) assms(2) by auto
  ultimately show ?thesis using r by blast
qed

lemma initState_good:
  assumes "1 \<le> m" "\<And>p. p \<in> set (A 1) \<Longrightarrow> 1 \<le> fst p \<and> fst p \<le> snd p \<and> snd p \<le> m"
  shows "\<exists>t. initState m A = Some (t, insert (0, 0) (set (A 1))) \<and>
      good m (t, insert (0, 0) (set (A 1))) \<and> arr t m = (\<lambda>i. 0)(1 := 1)"
proof -
  obtain t1 where t1: "buildTree tree0 1 1 m = Some t1" "treeInv t1 m" "arr t1 m = (\<lambda>i. 0)"
    using buildTree_root [OF assms(1)] by blast
  obtain t2 where t2: "updatePoint t1 1 1 1 = Some t2" "treeInv t2 m" "arr t2 m = (arr t1 m)(1 := 1)"
    using updatePoint_root [OF t1(2) _ assms(1), of 1] kMod_gt1 by auto
  have i: "initState m A = Some (t2, insert (0, 0) (set (A 1)))"
    using t1(1) t2(1) by (simp add: initState_def fold_insert_eq)
  have "zeroCover t2 m (insert (0, 0) (set (A 1)))"
    using t2(3) t1(3) by (simp add: zeroCover_def)
  moreover have "\<forall>p\<in>insert (0, 0) (set (A 1)). segOk m p"
    using assms(2) by (auto simp: segOk_def)
  ultimately have "good m (t2, insert (0, 0) (set (A 1)))"
    using t2(2) by (simp add: good_def)
  then show ?thesis using i t2(3) t1(3) by auto
qed

lemma valid_add:
  assumes "list_all (validRect n m) rects" "p \<in> set (addRangesOf rects i)"
  shows "1 \<le> fst p \<and> fst p \<le> snd p \<and> snd p \<le> m"
  using assms by (auto simp: addRangesOf_eq list_all_iff validRect_def rcols_def)

lemma valid_del:
  assumes "list_all (validRect n m) rects"
  shows "(0, 0) \<notin> set (delRangesOf rects i)"
  using assms by (auto simp: delRangesOf_eq list_all_iff validRect_def rcols_def)

lemma activeCols_1:
  assumes "list_all (validRect n m) rects"
  shows "activeCols rects 1 = set (addRangesOf rects 1)"
proof -
  have "\<And>r. r \<in> set rects \<Longrightarrow> (rx1 r \<le> 1 \<and> 1 \<le> rx2 r) = (rx1 r = 1)"
    using assms by (auto simp: list_all_iff validRect_def)
  then have "filter (\<lambda>r. rx1 r \<le> 1 \<and> 1 \<le> rx2 r) rects = filter (\<lambda>r. rx1 r = 1) rects"
    by (intro filter_cong) auto
  then show ?thesis by (simp add: activeCols_def addRangesOf_eq)
qed

lemma noEqualOverlapD:
  assumes "noEqualOverlap rects" "a \<in> set rects" "b \<in> set rects" "a \<noteq> b" "rcols a = rcols b"
  shows "rx2 a < rx1 b \<or> rx2 b < rx1 a"
  using assms by (auto simp: noEqualOverlap_def list_all_iff)

lemma activeCols_step:
  assumes "list_all (validRect n m) rects" "noEqualOverlap rects"
  shows "(insert (0, 0) (activeCols rects i) - set (delRangesOf rects (i + 1))) \<union>
      set (addRangesOf rects (i + 1)) = insert (0, 0) (activeCols rects (i + 1))"
    (is "?L = ?R")
proof -
  have v: "\<And>r. r \<in> set rects \<Longrightarrow> validRect n m r" using assms(1) by (simp add: list_all_iff)
  have ac: "\<And>j x. x \<in> activeCols rects j \<longleftrightarrow> (\<exists>r\<in>set rects. x = rcols r \<and> rx1 r \<le> j \<and> j \<le> rx2 r)"
    by (auto simp: activeCols_def)
  have ad: "\<And>j x. x \<in> set (addRangesOf rects j) \<longleftrightarrow> (\<exists>r\<in>set rects. x = rcols r \<and> rx1 r = j)"
    by (auto simp: addRangesOf_eq)
  have de: "\<And>j x. x \<in> set (delRangesOf rects j) \<longleftrightarrow> (\<exists>r\<in>set rects. x = rcols r \<and> rx2 r + 1 = j)"
    by (auto simp: delRangesOf_eq)
  show ?thesis
  proof (intro set_eqI iffI)
    fix x assume "x \<in> ?L"
    then consider "x \<in> set (addRangesOf rects (i + 1))"
      | "x = (0, 0)" | "x \<in> activeCols rects i" "x \<notin> set (delRangesOf rects (i + 1))"
      by auto
    then show "x \<in> ?R"
    proof cases
      case 1
      then obtain r where r: "r \<in> set rects" "x = rcols r" "rx1 r = i + 1" using ad by blast
      then have "rx1 r \<le> i + 1 \<and> i + 1 \<le> rx2 r" using v [OF r(1)] by (simp add: validRect_def)
      then show ?thesis using r ac by blast
    next
      case 2
      then show ?thesis by simp
    next
      case 3
      then obtain r where r: "r \<in> set rects" "x = rcols r" "rx1 r \<le> i" "i \<le> rx2 r"
        using ac by blast
      have "rx2 r + 1 \<noteq> i + 1" using 3(2) r(1,2) de by blast
      then have "rx1 r \<le> i + 1 \<and> i + 1 \<le> rx2 r" using r(3,4) by simp
      then show ?thesis using r ac by blast
    qed
  next
    fix x assume "x \<in> ?R"
    then consider "x = (0, 0)" | "x \<in> activeCols rects (i + 1)" by auto
    then show "x \<in> ?L"
    proof cases
      case 1
      then show ?thesis using valid_del [OF assms(1)] by simp
    next
      case 2
      then obtain r where r: "r \<in> set rects" "x = rcols r" "rx1 r \<le> i + 1" "i + 1 \<le> rx2 r"
        using ac by blast
      show ?thesis
      proof (cases "rx1 r = i + 1")
        case True
        then show ?thesis using r ad by blast
      next
        case False
        then have "rx1 r \<le> i \<and> i \<le> rx2 r" using r(3,4) by simp
        then have a: "x \<in> activeCols rects i" using r(1,2) ac by blast
        have "x \<notin> set (delRangesOf rects (i + 1))"
        proof
          assume "x \<in> set (delRangesOf rects (i + 1))"
          then obtain r' where r': "r' \<in> set rects" "x = rcols r'" "rx2 r' + 1 = i + 1"
            using de by blast
          have "r \<noteq> r'" using r(4) r'(3) by auto
          then have "rx2 r < rx1 r' \<or> rx2 r' < rx1 r"
            using noEqualOverlapD [OF assms(2) r(1) r'(1)] r(2) r'(2) by simp
          moreover have "rx1 r' \<le> rx2 r'" using v [OF r'(1)] by (simp add: validRect_def)
          ultimately show False using r(3,4) r'(3) False by simp
        qed
        then show ?thesis using a by simp
      qed
    qed
  qed
qed

lemma stateAfter_inv:
  assumes "1 \<le> m" "list_all (validRect n m) rects" "1 \<le> i"
  shows "\<exists>t S. stateAfter m rects i = Some (t, S) \<and> good m (t, S) \<and>
      (col1Zeroed rects i \<longrightarrow> arr t m 1 = 0) \<and>
      (noEqualOverlap rects \<longrightarrow> S = insert (0, 0) (activeCols rects i))"
  using assms(3)
proof (induction i rule: int_ge_induct)
  case base
  obtain t where t: "initState m (addRangesOf rects) = Some (t, insert (0, 0) (set (addRangesOf rects 1)))"
    "good m (t, insert (0, 0) (set (addRangesOf rects 1)))"
    using initState_good [OF assms(1), of "addRangesOf rects"] valid_add [OF assms(2)] by blast
  have "\<not> col1Zeroed rects 1" by (auto simp: col1Zeroed_def)
  then show ?case
    using t activeCols_1 [OF assms(2)] by (simp add: stateAfter_def stateAfterWith_1)
next
  case (step i)
  let ?A = "addRangesOf rects" and ?D = "delRangesOf rects"
  obtain t S where st: "stateAfter m rects i = Some (t, S)" "good m (t, S)"
    "col1Zeroed rects i \<longrightarrow> arr t m 1 = 0"
    "noEqualOverlap rects \<longrightarrow> S = insert (0, 0) (activeCols rects i)"
    using step.IH by blast
  let ?S' = "(S - set (?D (i + 1))) \<union> set (?A (i + 1))"
  obtain t' where t': "rowStepWith sortDesc m ?A ?D (t, S) (i + 1) = Some (t', ?S')"
    "good m (t', ?S')" "arr t m 1 = 0 \<longrightarrow> arr t' m 1 = 0"
    "(\<exists>p\<in>set (?A (i + 1)). fst p = 1) \<longrightarrow> arr t' m 1 = 0"
    using rowStep_good [where order = sortDesc and A = ?A and D = ?D and i = "i + 1", OF st(2)]
      valid_add [OF assms(2)] valid_del [OF assms(2)] set_sortDesc by blast
  have r: "stateAfter m rects (i + 1) = Some (t', ?S')"
    using stateAfterWith_step [OF step.hyps, of sortDesc m rects] st(1) t'(1)
    by (simp add: stateAfter_def)
  have c: "col1Zeroed rects (i + 1) \<longrightarrow> arr t' m 1 = 0"
  proof
    assume "col1Zeroed rects (i + 1)"
    then obtain r where r: "r \<in> set rects" "ry1 r = 1" "2 \<le> rx1 r" "rx1 r \<le> i + 1"
      by (auto simp: col1Zeroed_def)
    show "arr t' m 1 = 0"
    proof (cases "rx1 r = i + 1")
      case True
      then have "rcols r \<in> set (?A (i + 1))" using r(1) by (auto simp: addRangesOf_eq)
      moreover have "fst (rcols r) = 1" using r(2) by (simp add: rcols_def)
      ultimately show ?thesis using t'(4) by blast
    next
      case False
      then have "col1Zeroed rects i" using r by (auto simp: col1Zeroed_def)
      then show ?thesis using st(3) t'(3) by simp
    qed
  qed
  have "noEqualOverlap rects \<longrightarrow> ?S' = insert (0, 0) (activeCols rects (i + 1))"
    using st(4) activeCols_step [OF assms(2)] by auto
  then show ?case using r t'(2) c by blast
qed

lemma sweep_no_events:
  "sweepWith sortDesc m (\<lambda>_. []) (\<lambda>_. []) st rows = Some st"
  by (induction rows) (simp_all add: rowStepWith_def sortDesc_def)

lemma buckets_Nil: "addRangesOf [] = (\<lambda>_. [])" "delRangesOf [] = (\<lambda>_. [])"
  by (simp_all add: addRangesOf_def delRangesOf_def)

lemma solve_no_rects:
  assumes "1 \<le> m"
  shows "solve n m [] = Some 1"
proof -
  obtain t where t: "initState m (\<lambda>_. []) = Some (t, {(0, 0)})" "good m (t, {(0, 0)})"
    "arr t m = (\<lambda>i. 0)(1 := 1)"
    using initState_good [OF assms, of "\<lambda>_. []"] by auto
  have s: "stateAfter m [] n = Some (t, {(0, 0)})"
    using t(1) by (simp add: stateAfter_def stateAfterWith_alt buckets_Nil sweep_no_events)
  have "(\<Sum>i = 1..m. arr t m i) = (\<Sum>i \<in> {1..m}. if i = 1 then 1 else 0)"
    unfolding t(3) by (intro sum.cong) auto
  also have "\<dots> = 1" using assms by (simp add: sum.delta')
  finally have "(\<Sum>i = 1..m. arr t m i) mod kMod = 1" using kMod_gt1 by simp
  moreover have "treeInv t m" using t(2) by (simp add: good_def)
  ultimately obtain t' where "queryRange t 1 1 m = Some (t', 1)"
    using queryRange_tail [of t m 1] by auto
  then show ?thesis using s by (simp add: solve_def solveWith_def stateAfter_def finish_def lastSeg_def)
qed

lemma erasePresent_iff: "erasePresent S ps \<longleftrightarrow> set ps \<subseteq> S \<and> distinct ps"
  by (induction ps arbitrary: S) auto

lemma del_present:
  assumes "list_all (validRect n m) rects"
  shows "set (delRangesOf rects i) \<subseteq> activeCols rects (i - 1)"
  using assms by (auto simp: delRangesOf_eq activeCols_def list_all_iff validRect_def)

lemma del_distinct:
  assumes "list_all (validRect n m) rects" "noEqualOverlap rects"
  shows "distinct (delRangesOf rects i)"
proof -
  have d: "distinct rects" using assms(2) by (simp add: noEqualOverlap_def)
  have "inj_on rcols (set (filter (\<lambda>r. rx2 r + 1 = i) rects))"
  proof (rule inj_onI)
    fix a b assume a: "a \<in> set (filter (\<lambda>r. rx2 r + 1 = i) rects)"
      and b: "b \<in> set (filter (\<lambda>r. rx2 r + 1 = i) rects)" and e: "rcols a = rcols b"
    show "a = b"
    proof (rule ccontr)
      assume "a \<noteq> b"
      then have "rx2 a < rx1 b \<or> rx2 b < rx1 a"
        using noEqualOverlapD [OF assms(2), of a b] a b e by simp
      moreover have "rx1 a \<le> rx2 a" "rx1 b \<le> rx2 b"
        using assms(1) a b by (auto simp: list_all_iff validRect_def)
      ultimately show False using a b by simp
    qed
  qed
  then show ?thesis using d by (simp add: delRangesOf_eq distinct_map)
qed

lemma active_zero:
  assumes "1 \<le> m" "list_all (validRect n m) rects" "noEqualOverlap rects" "1 \<le> i"
    and "r \<in> set rects" "rx1 r \<le> i" "i \<le> rx2 r"
  shows "\<exists>t S. stateAfter m rects i = Some (t, S) \<and> treeInv t m \<and> rcols r \<in> S \<and>
      finite S \<and> (\<forall>p\<in>S. segOk m p) \<and>
      (\<forall>c. ry1 r \<le> c \<and> c \<le> ry2 r \<and> (c \<noteq> 1 \<or> 2 \<le> rx1 r) \<longrightarrow> arr t m c = 0)"
proof -
  obtain t S where st: "stateAfter m rects i = Some (t, S)" "good m (t, S)"
    "col1Zeroed rects i \<longrightarrow> arr t m 1 = 0" "S = insert (0, 0) (activeCols rects i)"
    using stateAfter_inv [OF assms(1,2,4)] assms(3) by blast
  have mem: "rcols r \<in> S" using st(4) assms(5,6,7) by (auto simp: activeCols_def)
  have z: "zeroCover t m S" using st(2) by (simp add: good_def)
  have "\<forall>c. ry1 r \<le> c \<and> c \<le> ry2 r \<and> (c \<noteq> 1 \<or> 2 \<le> rx1 r) \<longrightarrow> arr t m c = 0"
  proof (intro allI impI)
    fix c assume c: "ry1 r \<le> c \<and> c \<le> ry2 r \<and> (c \<noteq> 1 \<or> 2 \<le> rx1 r)"
    show "arr t m c = 0"
    proof (cases "c = 1")
      case False
      then show ?thesis using z mem c by (auto simp: zeroCover_def rcols_def)
    next
      case True
      have "1 \<le> ry1 r" using assms(2,5) by (auto simp: list_all_iff validRect_def)
      then have "ry1 r = 1" "2 \<le> rx1 r" using c True by auto
      then have "col1Zeroed rects i" using assms(5,6) by (auto simp: col1Zeroed_def)
      then show ?thesis using st(3) True by simp
    qed
  qed
  then show ?thesis using st(1,2) mem by (auto simp: good_def)
qed

lemma solve_total:
  assumes "validInput n m rects"
  shows "\<exists>a. solve n m rects = Some a \<and> 0 \<le> a \<and> a < kMod"
proof -
  have v: "1 \<le> m" "list_all (validRect n m) rects" and n: "1 \<le> n"
    using assms by (simp_all add: validInput_def)
  obtain t S where st: "stateAfter m rects n = Some (t, S)" "good m (t, S)"
    using stateAfter_inv [OF v n] by blast
  have g: "treeInv t m" "finite S" "(0, 0) \<in> S" "\<forall>p\<in>S. segOk m p"
    using st(2) by (simp_all add: good_def)
  have ne: "S \<noteq> {}" using g(3) by auto
  have "Max S \<in> S" using Max_in [OF g(2) ne] .
  then have "1 \<le> snd (Max S) + 1" using g(4) by (fastforce simp: segOk_def)
  then obtain t' where q: "queryRange t 1 (snd (Max S) + 1) m =
      Some (t', (\<Sum>i = snd (Max S) + 1..m. arr t m i) mod kMod)"
    using queryRange_tail [OF g(1)] by blast
  have "solve n m rects = Some ((\<Sum>i = snd (Max S) + 1..m. arr t m i) mod kMod)"
    using st(1) ne q by (simp add: solve_def solveWith_def stateAfter_def finish_def lastSeg_def)
  then show ?thesis using kMod_pos by simp
qed

text \<open>
  Claim C1, amended. With zero obstacle rectangles the result is 1 for every
  \<open>nRows \<ge> 1\<close> and \<open>mCols \<ge> 1\<close>: the tree holds \<open>ways[1] = 1\<close> and zeros elsewhere, no row
  changes it, and the final query sums all columns. This is \<open>C(nRows+mCols-2, nRows-1)\<close>
  only when \<open>nRows = 1\<close> or \<open>mCols = 1\<close>; in particular \<open>nRows = 1, mCols = 1\<close> yields 1 and
  \<open>nRows = 2, mCols = 2\<close> yields 1, not 2.
\<close>

theorem no_obstacles_one:
  assumes "1 \<le> nRows" "1 \<le> mCols"
  shows "solve nRows mCols [] = Some 1"
  using assms(2) by (rule solve_no_rects)

theorem no_obstacles_one_witness:
  "(1::int) \<le> 2 \<and> (1::int) \<le> 2 \<and> solve 2 2 [] = Some 1"
  using no_obstacles_one [of 2 2] by simp

text \<open>
  The claim as stated fails at \<open>nRows = 2, mCols = 2\<close> with no rectangle: the program
  prints 1, and \<open>C(2, 1) mod kMod = 2\<close>.
\<close>

theorem no_obstacles_counterexample:
  "solve 2 2 [] = Some 1 \<and> int ((2 + 2 - 2) choose (2 - 1)) mod kMod = 2"
  by code_simp

text \<open>
  Claim C2, amended. For every valid input in which no two obstacles with equal column
  intervals have overlapping row spans, after every row \<open>i\<close> of \<open>1..nRows\<close> the active set
  is the sentinel together with exactly the column intervals of the obstacles whose row
  span contains \<open>i\<close>, and the erasures of row \<open>i\<close>, applied to the set as it is after row
  \<open>i - 1\<close>, never meet an absent interval.
  Two obstacles with equal column intervals and overlapping row spans collapse into one
  member, which the earlier expiration removes while the other obstacle is still active
  (the counterexample below).
\<close>

theorem active_set_exact:
  assumes "validInput nRows mCols rects" "noEqualOverlap rects" "1 \<le> i" "i \<le> nRows"
  shows "(\<exists>t. stateAfter mCols rects i = Some (t, insert (0, 0) (activeCols rects i))) \<and>
     (2 \<le> i \<longrightarrow>
        (\<exists>t. stateAfter mCols rects (i - 1) =
           Some (t, insert (0, 0) (activeCols rects (i - 1)))) \<and>
        erasePresent (insert (0, 0) (activeCols rects (i - 1))) (delRangesOf rects i))"
proof -
  have v: "1 \<le> mCols" "list_all (validRect nRows mCols) rects"
    using assms(1) by (simp_all add: validInput_def)
  have "\<exists>t. stateAfter mCols rects i = Some (t, insert (0, 0) (activeCols rects i))"
    using stateAfter_inv [OF v assms(3)] assms(2) by auto
  moreover have "erasePresent (insert (0, 0) (activeCols rects (i - 1))) (delRangesOf rects i)"
    using del_present [OF v(2), of i] del_distinct [OF v(2) assms(2), of i]
    by (auto simp: erasePresent_iff)
  moreover have "2 \<le> i \<longrightarrow>
      (\<exists>t. stateAfter mCols rects (i - 1) = Some (t, insert (0, 0) (activeCols rects (i - 1))))"
  proof
    assume "2 \<le> i"
    then have "1 \<le> i - 1" by simp
    then show "\<exists>t. stateAfter mCols rects (i - 1) =
        Some (t, insert (0, 0) (activeCols rects (i - 1)))"
      using stateAfter_inv [OF v, of "i - 1"] assms(2) by auto
  qed
  ultimately show ?thesis by simp
qed

theorem active_set_exact_witness:
  "validInput 4 3 [(1, 2, 2, 3), (3, 2, 4, 3), (2, 1, 3, 1)] \<and>
   noEqualOverlap [(1, 2, 2, 3), (3, 2, 4, 3), (2, 1, 3, 1)] \<and> (1::int) \<le> 3 \<and> (3::int) \<le> 4 \<and>
   (\<exists>t. stateAfter 3 [(1, 2, 2, 3), (3, 2, 4, 3), (2, 1, 3, 1)] 3 =
      Some (t, insert (0, 0) (activeCols [(1, 2, 2, 3), (3, 2, 4, 3), (2, 1, 3, 1)] 3))) \<and>
   (\<exists>t. stateAfter 3 [(1, 2, 2, 3), (3, 2, 4, 3), (2, 1, 3, 1)] (3 - 1) =
      Some (t, insert (0, 0) (activeCols [(1, 2, 2, 3), (3, 2, 4, 3), (2, 1, 3, 1)] (3 - 1)))) \<and>
   erasePresent (insert (0, 0) (activeCols [(1, 2, 2, 3), (3, 2, 4, 3), (2, 1, 3, 1)] (3 - 1)))
     (delRangesOf [(1, 2, 2, 3), (3, 2, 4, 3), (2, 1, 3, 1)] 3)"
  using active_set_exact [of 4 3 "[(1, 2, 2, 3), (3, 2, 4, 3), (2, 1, 3, 1)]" 3]
  by (simp add: validInput_def validRect_def noEqualOverlap_def rcols_def)

text \<open>
  Rows 1 to 2 and rows 2 to 4, both over the columns 2 to 3: after row 3 the active set
  holds the sentinel only, although the second obstacle spans row 3.
\<close>

theorem active_set_counterexample:
  "validInput 4 3 [(1, 2, 2, 3), (2, 2, 4, 3)] \<and>
   map_option snd (stateAfter 3 [(1, 2, 2, 3), (2, 2, 4, 3)] 3) = Some {(0, 0)} \<and>
   (2, 3) \<in> activeCols [(1, 2, 2, 3), (2, 2, 4, 3)] 3"
  by code_simp

text \<open>
  Claim C3, amended. For every valid input in which no two obstacles with equal column
  intervals have overlapping row spans, after every row \<open>i\<close> of \<open>1..nRows\<close> and for every
  obstacle whose row span contains \<open>i\<close>, the range sum over any sub-range of its column
  interval is 0, except for an obstacle that starts at row 1 in column 1: obstacles of
  row 1 are only inserted into the active set, never zeroed, and column 1 holds the
  base case \<open>ways[1] = 1\<close>.
\<close>

theorem active_obstacle_zero:
  assumes "validInput nRows mCols rects" "noEqualOverlap rects" "1 \<le> i" "i \<le> nRows"
    and "r \<in> set rects" "rx1 r \<le> i" "i \<le> rx2 r" "\<not> (rx1 r = 1 \<and> ry1 r = 1)"
    and "ry1 r \<le> lo" "lo \<le> hi" "hi \<le> ry2 r"
  shows "sumAfter mCols rects i lo hi = Some 0"
proof -
  have v: "1 \<le> mCols" "list_all (validRect nRows mCols) rects"
    using assms(1) by (simp_all add: validInput_def)
  have vr: "validRect nRows mCols r" using v(2) assms(5) by (simp add: list_all_iff)
  obtain t S where st: "stateAfter mCols rects i = Some (t, S)" "treeInv t mCols"
    "\<forall>c. ry1 r \<le> c \<and> c \<le> ry2 r \<and> (c \<noteq> 1 \<or> 2 \<le> rx1 r) \<longrightarrow> arr t mCols c = 0"
    using active_zero [OF v assms(2,3,5,6,7)] by blast
  have "(\<Sum>c = lo..hi. arr t mCols c) = 0"
  proof (rule sum.neutral, intro ballI)
    fix c assume c: "c \<in> {lo..hi}"
    have "c \<noteq> 1 \<or> 2 \<le> rx1 r" using assms(8,9) c vr by (auto simp: validRect_def)
    then show "arr t mCols c = 0" using st(3) c assms(9,11) by auto
  qed
  moreover have "1 \<le> lo" "hi \<le> mCols" using vr assms(9,11) by (auto simp: validRect_def)
  ultimately obtain t' where "queryRange t 1 lo hi = Some (t', 0)"
    using queryRange_root [OF st(2) _ assms(10)] by auto
  then show ?thesis using st(1) by (simp add: sumAfter_def)
qed

theorem active_obstacle_zero_witness:
  "validInput 3 4 [(1, 3, 2, 4), (2, 1, 3, 2)] \<and> noEqualOverlap [(1, 3, 2, 4), (2, 1, 3, 2)] \<and>
   (1::int) \<le> 3 \<and> (3::int) \<le> 3 \<and> (2, 1, 3, 2) \<in> set [(1, 3, 2, 4), (2, 1, 3, 2)] \<and>
   rx1 (2, 1, 3, 2) \<le> 3 \<and> 3 \<le> rx2 (2, 1, 3, 2) \<and>
   \<not> (rx1 (2, 1, 3, 2) = 1 \<and> ry1 (2, 1, 3, 2) = 1) \<and>
   ry1 (2, 1, 3, 2) \<le> 1 \<and> (1::int) \<le> 2 \<and> 2 \<le> ry2 (2, 1, 3, 2) \<and>
   sumAfter 4 [(1, 3, 2, 4), (2, 1, 3, 2)] 3 1 2 = Some 0"
  using active_obstacle_zero [of 3 4 "[(1, 3, 2, 4), (2, 1, 3, 2)]" 3 "(2, 1, 3, 2)" 1 2]
  by (simp add: validInput_def validRect_def noEqualOverlap_def rcols_def)

text \<open>
  An obstacle on the cell \<open>(1, 1)\<close>: after row 1 the range sum over its column interval
  \<open>[1, 1]\<close> is 1.
\<close>

theorem active_obstacle_counterexample:
  "validInput 2 2 [(1, 1, 1, 1)] \<and> sumAfter 2 [(1, 1, 1, 1)] 1 1 1 = Some 1"
  by code_simp

text \<open>
  Claim C9, amended. For every valid input in which no two obstacles with equal column
  intervals have overlapping row spans, a rectangle that covers the destination cell
  \<open>(nRows, mCols)\<close> makes the final answer 0: the final query runs over columns inside
  that rectangle, or over the empty range \<open>[mCols+1, mCols]\<close>, and returns 0.
\<close>

theorem destination_covered:
  assumes "validInput nRows mCols rects" "noEqualOverlap rects"
    and "r \<in> set rects" "rx1 r \<le> nRows" "nRows \<le> rx2 r" "ry1 r \<le> mCols" "mCols \<le> ry2 r"
  shows "solve nRows mCols rects = Some 0 \<and>
    sumAfter mCols rects nRows (mCols + 1) mCols = Some 0"
proof -
  have v: "1 \<le> mCols" "list_all (validRect nRows mCols) rects" and n: "1 \<le> nRows"
    using assms(1) by (simp_all add: validInput_def)
  have vr: "validRect nRows mCols r" using v(2) assms(3) by (simp add: list_all_iff)
  obtain t S where st: "stateAfter mCols rects nRows = Some (t, S)" "treeInv t mCols"
    "rcols r \<in> S" "finite S" "\<forall>p\<in>S. segOk mCols p"
    "\<forall>c. ry1 r \<le> c \<and> c \<le> ry2 r \<and> (c \<noteq> 1 \<or> 2 \<le> rx1 r) \<longrightarrow> arr t mCols c = 0"
    using active_zero [OF v assms(2) n assms(3,4,5)] by blast
  have ne: "S \<noteq> {}" using st(3) by auto
  have mx: "Max S \<in> S" "rcols r \<le> Max S" using Max_in [OF st(4) ne] Max_ge [OF st(4) st(3)] by simp_all
  have "ry1 r \<le> fst (Max S)" using le_prod_fst [OF mx(2)] by (simp add: rcols_def)
  moreover have "1 \<le> ry1 r" using vr by (simp add: validRect_def)
  ultimately have f: "ry1 r \<le> fst (Max S)" "1 \<le> fst (Max S)" by simp_all
  then have "Max S \<noteq> (0, 0)" by auto
  then have s: "fst (Max S) \<le> snd (Max S)" using st(5) mx(1) by (auto simp: segOk_def)
  have "(\<Sum>c = snd (Max S) + 1..mCols. arr t mCols c) = 0"
  proof (rule sum.neutral, intro ballI)
    fix c assume "c \<in> {snd (Max S) + 1..mCols}"
    then have "ry1 r \<le> c \<and> c \<le> ry2 r \<and> c \<noteq> 1" using f s assms(7) by auto
    then show "arr t mCols c = 0" using st(6) by simp
  qed
  moreover have "1 \<le> snd (Max S) + 1" using f s by simp
  ultimately obtain t' where "queryRange t 1 (snd (Max S) + 1) mCols = Some (t', 0)"
    using queryRange_tail [OF st(2), of "snd (Max S) + 1"] by auto
  then have a: "solve nRows mCols rects = Some 0"
    using st(1) ne by (simp add: solve_def solveWith_def stateAfter_def finish_def lastSeg_def)
  obtain t'' where "queryRange t 1 (mCols + 1) mCols = Some (t'', 0)"
    using queryRange_tail [OF st(2), of "mCols + 1"] v(1) by auto
  then have "sumAfter mCols rects nRows (mCols + 1) mCols = Some 0"
    using st(1) by (simp add: sumAfter_def)
  then show ?thesis using a by simp
qed

theorem destination_covered_witness:
  "validInput 3 2 [(2, 2, 3, 2)] \<and> noEqualOverlap [(2, 2, 3, 2)] \<and>
   (2, 2, 3, 2) \<in> set [(2, 2, 3, 2)] \<and> rx1 (2, 2, 3, 2) \<le> 3 \<and> 3 \<le> rx2 (2, 2, 3, 2) \<and>
   ry1 (2, 2, 3, 2) \<le> 2 \<and> 2 \<le> ry2 (2, 2, 3, 2) \<and> solve 3 2 [(2, 2, 3, 2)] = Some 0 \<and>
   sumAfter 2 [(2, 2, 3, 2)] 3 (2 + 1) 2 = Some 0"
  using destination_covered [of 3 2 "[(2, 2, 3, 2)]" "(2, 2, 3, 2)"]
  by (simp add: validInput_def validRect_def noEqualOverlap_def rcols_def)

text \<open>
  The second rectangle covers the destination \<open>(3, 2)\<close>; the first one has the same column
  interval and expires after row 1, which removes the interval from the set. The answer
  is 1.
\<close>

theorem destination_covered_counterexample:
  "validInput 3 2 [(1, 2, 1, 2), (1, 2, 3, 2)] \<and> rx1 (1, 2, 3, 2) \<le> 3 \<and> 3 \<le> rx2 (1, 2, 3, 2) \<and>
   ry1 (1, 2, 3, 2) \<le> 2 \<and> 2 \<le> ry2 (1, 2, 3, 2) \<and>
   solve 3 2 [(1, 2, 1, 2), (1, 2, 3, 2)] = Some 1"
  by code_simp

text \<open>
  Claim C7. For every bound \<open>\<ge> 0\<close> and every finite active set that contains the sentinel
  \<open>(0, 0)\<close> (its members are intervals, so right endpoints are not negative), the lookup
  \<open>lower_bound((bound + 1, 0))\<close> followed by \<open>it--\<close> succeeds and returns the member with
  the greatest left endpoint \<open>\<le> bound\<close>, the largest right endpoint deciding ties.
\<close>

theorem predecessor_lookup:
  assumes "finite S" "(0, 0) \<in> S" "\<forall>p\<in>S. 0 \<le> snd p" "0 \<le> bound"
  shows "\<exists>p. lowerBoundPrev S (bound + 1, 0) = Some p \<and> p \<in> S \<and> fst p \<le> bound \<and>
      (\<forall>q\<in>S. fst q \<le> bound \<longrightarrow> fst q < fst p \<or> (fst q = fst p \<and> snd q \<le> snd p))"
proof -
  obtain p where p: "lowerBoundPrev S (bound + 1, 0) = Some p" "p \<in> S" "fst p \<le> bound"
    "\<forall>q\<in>S. fst q \<le> bound \<longrightarrow> q \<le> p"
    using lowerBoundPrev_correct [OF assms(1,2) _ assms(4)] assms(3) by blast
  have "\<forall>q\<in>S. fst q \<le> bound \<longrightarrow> fst q < fst p \<or> (fst q = fst p \<and> snd q \<le> snd p)"
  proof (intro ballI impI)
    fix q assume "q \<in> S" "fst q \<le> bound"
    then have "q \<le> p" using p(4) by simp
    then show "fst q < fst p \<or> (fst q = fst p \<and> snd q \<le> snd p)"
      by (cases q; cases p) (auto simp: less_eq_prod_def)
  qed
  then show ?thesis using p(1,2,3) by blast
qed

theorem predecessor_lookup_witness:
  "finite {(0, 0), (2, 3), (2, 5), (4, 4 :: int)} \<and> (0, 0) \<in> {(0, 0), (2, 3), (2, 5), (4, 4 :: int)} \<and>
   (0::int) \<le> snd (0, 0) \<and> (0::int) \<le> snd (2, 3) \<and> (0::int) \<le> snd (2, 5) \<and>
   (0::int) \<le> snd (4, 4) \<and> (0::int) \<le> 3 \<and>
   lowerBoundPrev {(0, 0), (2, 3), (2, 5), (4, 4)} (3 + 1, 0) = Some (2, 5)"
proof -
  obtain p where p: "lowerBoundPrev {(0, 0), (2, 3), (2, 5), (4, 4)} (3 + 1, 0) = Some p"
    "p \<in> {(0, 0), (2, 3), (2, 5), (4, 4)}" "fst p \<le> 3"
    "\<forall>q\<in>{(0, 0), (2, 3), (2, 5), (4, 4 :: int)}. fst q \<le> 3 \<longrightarrow>
       fst q < fst p \<or> (fst q = fst p \<and> snd q \<le> snd p)"
    using predecessor_lookup [of "{(0, 0), (2, 3), (2, 5), (4, 4)}" 3] by auto
  from p(2,3,4) have "p = (2, 5)" by auto
  then show ?thesis using p(1) by simp
qed

text \<open>
  Claim C5. Permuting the list of rectangles leaves the result unchanged (for every
  input, valid or not): the buckets of a row hold the same intervals, the activations are
  sorted before use, and insertions and erasures act on a set. On a valid input the
  program does print a result.
\<close>

theorem rectangle_order_irrelevant:
  assumes "mset rects' = mset rects"
  shows "solve nRows mCols rects' = solve nRows mCols rects \<and>
    (validInput nRows mCols rects \<longrightarrow> (\<exists>a. solve nRows mCols rects = Some a))"
proof -
  have "solve nRows mCols rects' = solve nRows mCols rects"
    unfolding solve_def using assms by (rule solveWith_perm)
  then show ?thesis using solve_total [of nRows mCols rects] by blast
qed

theorem rectangle_order_irrelevant_witness:
  "mset [(2, 4, 2, 4), (2, 2, 2, 2 :: int)] = mset [(2, 2, 2, 2), (2, 4, 2, 4)] \<and>
   solve 2 5 [(2, 4, 2, 4), (2, 2, 2, 2)] = solve 2 5 [(2, 2, 2, 2), (2, 4, 2, 4)] \<and>
   solve 2 5 [(2, 2, 2, 2), (2, 4, 2, 4)] = Some 1"
proof -
  have e: "solve 2 5 [(2, 2, 2, 2), (2, 4, 2, 4)] = Some 1" by code_simp
  show ?thesis
    using rectangle_order_irrelevant [of "[(2, 4, 2, 4), (2, 2, 2, 2)]" "[(2, 2, 2, 2), (2, 4, 2, 4)]" 2 5] e
    by simp
qed




end
